theory Spec2Isabelle
  imports Main
begin

section \<open>The one-dimensional heat kernels of heat.c\<close>

text \<open>
  The source works on C arrays of \<^verbatim>\<open>double\<close>.  The kernels apply the four
  arithmetic operators of the element type in a fixed order and never inspect a value
  otherwise, so the element type is a parameter \<^typ>\<open>'a\<close> and its operators are
  collected in a record: \<open>fadd\<close>, \<open>fsub\<close>, \<open>fmul\<close>, \<open>fdiv\<close> stand for the
  compiled \<^verbatim>\<open>+ - * /\<close> on \<^verbatim>\<open>double\<close> and \<open>ftwo\<close> for the integer literal
  \<^verbatim>\<open>2\<close> converted to \<^verbatim>\<open>double\<close>.  Each operator is a function of the values of its
  operands; nothing else is assumed about it (no associativity, no exactness).
\<close>

record 'a arith =
  fadd :: "'a \<Rightarrow> 'a \<Rightarrow> 'a"
  fsub :: "'a \<Rightarrow> 'a \<Rightarrow> 'a"
  fmul :: "'a \<Rightarrow> 'a \<Rightarrow> 'a"
  fdiv :: "'a \<Rightarrow> 'a \<Rightarrow> 'a"
  ftwo :: "'a"

datatype error = OutOfBounds

subsection \<open>array_copy and the allocation of scratch space\<close>

text \<open>
  \<^verbatim>\<open>for (size_t i=0; i<length; ++i) toarray[i] = fromarray[i];\<close>
  The loop writes the cells \<open>0 .. length-1\<close> of \<open>toarray\<close> one after the other.
  Both arrays must have at least \<open>length\<close> cells; the callers below check it.
\<close>

definition array_copy :: "'a list \<Rightarrow> 'a list \<Rightarrow> nat \<Rightarrow> 'a list" where
  "array_copy toarray fromarray len =
     fold (\<lambda>i t. t[i := fromarray ! i]) [0..<len] toarray"

text \<open>
  \<^verbatim>\<open>malloc(Nx * sizeof(double))\<close> returns a block of \<open>Nx\<close> cells whose contents are
  indeterminate.  The contents are a parameter \<open>g\<close> of the model (cell \<open>i\<close> holds
  \<open>g i\<close>), so that a result that depended on them would be visible.  The source does
  not test the pointer returned; the model describes the runs in which the allocation
  succeeds.
\<close>

definition malloc :: "(nat \<Rightarrow> 'a) \<Rightarrow> nat \<Rightarrow> 'a list" where
  "malloc g n = map g [0..<n]"

subsection \<open>heat_serial\<close>

text \<open>
  The right-hand side of every update:
  \<^verbatim>\<open>c + nu*(l - 2*c + r)\<close>, parsed as \<^verbatim>\<open>c + (nu * ((l - (2*c)) + r))\<close>.
\<close>

definition stencil :: "'a arith \<Rightarrow> 'a \<Rightarrow> 'a \<Rightarrow> 'a \<Rightarrow> 'a \<Rightarrow> 'a" where
  "stencil A nu l c r = fadd A c (fmul A nu (fadd A (fsub A l (fmul A (ftwo A) c)) r))"

text \<open>
  \<^verbatim>\<open>for (size_t i=1; i<(Nx-1); ++i) utp1[i] = ut[i] + nu*(ut[i-1] - 2*ut[i] + ut[i+1]);\<close>
\<close>

definition interior :: "'a arith \<Rightarrow> 'a \<Rightarrow> nat \<Rightarrow> 'a list \<Rightarrow> 'a list \<Rightarrow> 'a list" where
  "interior A nu Nx ut utp1 =
     fold (\<lambda>i w. w[i := stencil A nu (ut ! (i - 1)) (ut ! i) (ut ! (i + 1))]) [1..<Nx - 1] utp1"

text \<open>
  One pass of the body of the time loop up to the pointer swap: the interior loop, then
  the two periodic edges.  The value is the new contents of the block \<open>utp1\<close>.
\<close>

definition euler_step :: "'a arith \<Rightarrow> 'a \<Rightarrow> nat \<Rightarrow> 'a list \<Rightarrow> 'a list \<Rightarrow> 'a list" where
  "euler_step A nu Nx ut utp1 =
     (let w = interior A nu Nx ut utp1;
          w = w[0 := stencil A nu (ut ! (Nx - 1)) (ut ! 0) (ut ! 1)];
          w = w[Nx - 1 := stencil A nu (ut ! (Nx - 2)) (ut ! (Nx - 1)) (ut ! 0)]
      in w)"

text \<open>
  The time loop.  The state is the pair of blocks that the pointers \<open>ut\<close> and \<open>utp1\<close>
  name; \<^verbatim>\<open>temp = ut; ut = utp1; utp1 = temp;\<close> exchanges the two names.
\<close>

definition serial_iter :: "'a arith \<Rightarrow> 'a \<Rightarrow> nat \<Rightarrow> 'a list \<times> 'a list \<Rightarrow> 'a list \<times> 'a list" where
  "serial_iter A nu Nx s = (case s of (ut, utp1) \<Rightarrow> (euler_step A nu Nx ut utp1, ut))"

fun time_loop :: "'a arith \<Rightarrow> 'a \<Rightarrow> nat \<Rightarrow> nat \<Rightarrow> 'a list \<times> 'a list \<Rightarrow> 'a list \<times> 'a list" where
  "time_loop A nu Nx 0 s = s"
| "time_loop A nu Nx (Suc n) s = time_loop A nu Nx n (serial_iter A nu Nx s)"

text \<open>
  \<open>heat_serial\<close>.  \<open>u\<close> is the caller's array, \<open>Nx\<close> the count passed along with it.
  The accesses of the source are in bounds exactly when \<open>u\<close> has at least \<open>Nx\<close> cells
  and, if the loop body runs at all, \<open>Nx \<ge> 2\<close>: with \<open>Nx = 1\<close> the left edge reads
  \<^verbatim>\<open>ut[1]\<close> past the one-cell block, and with \<open>Nx = 0\<close> the bound \<^verbatim>\<open>Nx-1\<close> wraps
  to the largest \<^verbatim>\<open>size_t\<close> and the interior loop writes \<^verbatim>\<open>utp1[1]\<close> of an empty block.
  Those runs have no defined result and are \<open>Inl OutOfBounds\<close>.
\<close>

definition heat_serial ::
  "'a arith \<Rightarrow> (nat \<Rightarrow> 'a) \<Rightarrow> 'a list \<Rightarrow> 'a \<Rightarrow> nat \<Rightarrow> 'a \<Rightarrow> nat \<Rightarrow> error + 'a list" where
  "heat_serial A g u dx Nx dt Nt =
     (if length u < Nx \<or> (0 < Nt \<and> Nx < 2) then Inl OutOfBounds
      else
        let ut = malloc g Nx;
            utp1 = malloc g Nx;
            ut = array_copy ut u Nx;
            nu = fdiv A dt (fmul A dx dx);
            (ut, utp1) = time_loop A nu Nx Nt (ut, utp1)
        in Inr (array_copy u ut Nx))"

subsection \<open>heat_parallel\<close>

text \<open>
  \<open>heat_parallel\<close> is run by every process of the communicator.  A process blocks
  in \<^verbatim>\<open>MPI_Recv\<close> and in \<^verbatim>\<open>MPI_Wait\<close>, so its run is cut at those calls: the
  program counter says where the process stands between two pieces of straight-line
  code.
\<close>

datatype pc =
  AtLoop         \<comment> \<open>at the test \<^verbatim>\<open>step<Nt\<close> of the time loop\<close>
| AtRecvRight    \<comment> \<open>sends posted, interior updated, in \<^verbatim>\<open>MPI_Recv\<close> from \<open>right_proc\<close>\<close>
| AtRecvLeft     \<comment> \<open>right edge updated, in \<^verbatim>\<open>MPI_Recv\<close> from \<open>left_proc\<close>\<close>
| AtWait         \<comment> \<open>left edge updated, blocks exchanged, in the two \<^verbatim>\<open>MPI_Wait\<close>\<close>
| Returned       \<comment> \<open>result copied to \<open>uk\<close>, function returned\<close>
| Undefined      \<comment> \<open>an access out of bounds happened\<close>

text \<open>
  The variables of one activation of \<open>heat_parallel\<close>: the caller's array \<open>uk\<close>, the
  arguments \<open>Nx\<close> and \<open>Nt\<close> (fields \<open>p_Nx\<close>, \<open>p_Nt\<close>), the blocks named by \<open>ukt\<close>
  and \<open>uktp1\<close>, \<open>nu\<close> (field \<open>p_nu\<close>) and the loop counter \<open>step\<close>.  The cells \<^verbatim>\<open>left_ghost[0]\<close> and \<^verbatim>\<open>right_ghost[0]\<close> are written
  immediately before the sends that read them and not again before the matching
  \<^verbatim>\<open>MPI_Wait\<close>; the cells \<^verbatim>\<open>left_ghost[1]\<close> and \<^verbatim>\<open>right_ghost[1]\<close> are read
  immediately after the receive that fills them.  Their values travel with the
  messages and are not kept in the record.
\<close>

record 'a proc =
  uk :: "'a list"
  p_Nx :: nat
  p_Nt :: nat
  ukt :: "'a list"
  uktp1 :: "'a list"
  p_nu :: "'a"
  step :: nat
  pc :: pc

text \<open>
  \<^verbatim>\<open>int left_proc = (rank-1+size) % size; int right_proc = (rank+1) % size;\<close>
  on C \<^verbatim>\<open>int\<close>; for \<open>0 \<le> rank < size\<close> both dividends are non-negative, where C's
  \<^verbatim>\<open>%\<close> and \<open>mod\<close> agree (and do not overflow for fewer than \<open>2^30\<close> processes).
\<close>

definition left_proc :: "nat \<Rightarrow> nat \<Rightarrow> nat" where
  "left_proc rank nprocs = nat ((int rank - 1 + int nprocs) mod int nprocs)"

definition right_proc :: "nat \<Rightarrow> nat \<Rightarrow> nat" where
  "right_proc rank nprocs = nat ((int rank + 1) mod int nprocs)"

text \<open>
  Entry of \<open>heat_parallel\<close> up to the loop head: the two allocations, the copy of
  \<open>uk\<close> into \<open>ukt\<close> and the computation of \<open>nu\<close>.
\<close>

definition heat_parallel_enter ::
  "'a arith \<Rightarrow> (nat \<Rightarrow> 'a) \<Rightarrow> 'a list \<Rightarrow> 'a \<Rightarrow> nat \<Rightarrow> 'a \<Rightarrow> nat \<Rightarrow> 'a proc" where
  "heat_parallel_enter A g uk0 dx Nx0 dt Nt0 =
     \<lparr>uk = uk0, p_Nx = Nx0, p_Nt = Nt0,
      ukt = (if length uk0 < Nx0 then malloc g Nx0 else array_copy (malloc g Nx0) uk0 Nx0),
      uktp1 = malloc g Nx0,
      p_nu = fdiv A dt (fmul A dx dx),
      step = 0,
      pc = (if length uk0 < Nx0 then Undefined else AtLoop)\<rparr>"

text \<open>
  The straight-line pieces.  \<open>post_sends\<close>: the two edge samples are handed to
  \<^verbatim>\<open>MPI_Isend\<close> (the pair returned, left-going message first) and the interior loop
  runs.  \<open>recv_right\<close> and \<open>recv_left\<close>: the edge update that follows each receive,
  \<open>v\<close> being the value received; \<open>recv_left\<close> ends with the exchange of the two
  pointers.  \<open>wait_sends\<close>: the end of the loop body.  \<open>finish\<close>: the copy back.
\<close>

definition post_sends :: "'a arith \<Rightarrow> 'a proc \<Rightarrow> ('a \<times> 'a) \<times> 'a proc" where
  "post_sends A p =
     ((ukt p ! 0, ukt p ! (p_Nx p - 1)),
      p\<lparr>uktp1 := interior A (p_nu p) (p_Nx p) (ukt p) (uktp1 p), pc := AtRecvRight\<rparr>)"

definition recv_right :: "'a arith \<Rightarrow> 'a \<Rightarrow> 'a proc \<Rightarrow> 'a proc" where
  "recv_right A v p =
     p\<lparr>uktp1 := (uktp1 p)[p_Nx p - 1 :=
                   stencil A (p_nu p) (ukt p ! (p_Nx p - 2)) (ukt p ! (p_Nx p - 1)) v],
       pc := AtRecvLeft\<rparr>"

definition recv_left :: "'a arith \<Rightarrow> 'a \<Rightarrow> 'a proc \<Rightarrow> 'a proc" where
  "recv_left A v p =
     p\<lparr>ukt := (uktp1 p)[0 := stencil A (p_nu p) v (ukt p ! 0) (ukt p ! 1)],
       uktp1 := ukt p,
       pc := AtWait\<rparr>"

definition wait_sends :: "'a proc \<Rightarrow> 'a proc" where
  "wait_sends p = p\<lparr>step := step p + 1, pc := AtLoop\<rparr>"

definition finish :: "'a proc \<Rightarrow> 'a proc" where
  "finish p = p\<lparr>uk := array_copy (uk p) (ukt p) (p_Nx p), pc := Returned\<rparr>"

text \<open>
  The communicator.  \<open>procs\<close> holds the activation of every rank, so
  \<^verbatim>\<open>MPI_Comm_size\<close> is its length and \<^verbatim>\<open>MPI_Comm_rank\<close> the position.  All messages
  carry one \<^verbatim>\<open>double\<close> and tag 0; a receive names its source, and MPI matches it with
  the earliest message posted by that source to the receiver that is not yet
  received.  \<open>chan src dst\<close> is the queue of those messages, oldest first.
\<close>

record 'a comm =
  procs :: "'a proc list"
  chan :: "nat \<Rightarrow> nat \<Rightarrow> 'a list"

definition isend :: "(nat \<Rightarrow> nat \<Rightarrow> 'a list) \<Rightarrow> nat \<Rightarrow> nat \<Rightarrow> 'a \<Rightarrow> (nat \<Rightarrow> nat \<Rightarrow> 'a list)" where
  "isend ch src dst v = ch(src := (ch src)(dst := ch src dst @ [v]))"

definition dequeue :: "(nat \<Rightarrow> nat \<Rightarrow> 'a list) \<Rightarrow> nat \<Rightarrow> nat \<Rightarrow> (nat \<Rightarrow> nat \<Rightarrow> 'a list)" where
  "dequeue ch src dst = ch(src := (ch src)(dst := tl (ch src dst)))"

text \<open>
  One move of rank \<open>r\<close>: the next piece of its code, or \<open>None\<close> when the call it
  stands in cannot return yet (or the process has returned).  A receive returns when
  the queue from its source is not empty.  When \<^verbatim>\<open>MPI_Wait\<close> on a send returns is
  left open by MPI: with \<open>buffered\<close> the library has copied the message and the wait
  returns at once, without it the wait returns only when the message has been
  received.  With \<open>Nx < 2\<close> the first pass of the loop body reads out of bounds (as
  in \<open>heat_serial\<close>).
\<close>

definition rank_step :: "'a arith \<Rightarrow> bool \<Rightarrow> 'a comm \<Rightarrow> nat \<Rightarrow> 'a comm option" where
  "rank_step A buffered c r =
     (if length (procs c) \<le> r then None
      else
        let p = procs c ! r;
            nprocs = length (procs c);
            left = left_proc r nprocs;
            right = right_proc r nprocs
        in case pc p of
             AtLoop \<Rightarrow>
               if step p < p_Nt p then
                 if p_Nx p < 2 then Some (c\<lparr>procs := (procs c)[r := p\<lparr>pc := Undefined\<rparr>]\<rparr>)
                 else
                   (case post_sends A p of ((to_left, to_right), p') \<Rightarrow>
                      Some \<lparr>procs = (procs c)[r := p'],
                            chan = isend (isend (chan c) r left to_left) r right to_right\<rparr>)
               else Some (c\<lparr>procs := (procs c)[r := finish p]\<rparr>)
           | AtRecvRight \<Rightarrow>
               (case chan c right r of
                  [] \<Rightarrow> None
                | v # q \<Rightarrow>
                    Some \<lparr>procs = (procs c)[r := recv_right A v p],
                          chan = dequeue (chan c) right r\<rparr>)
           | AtRecvLeft \<Rightarrow>
               (case chan c left r of
                  [] \<Rightarrow> None
                | v # q \<Rightarrow>
                    Some \<lparr>procs = (procs c)[r := recv_left A v p],
                          chan = dequeue (chan c) left r\<rparr>)
           | AtWait \<Rightarrow>
               if buffered \<or> (chan c r left = [] \<and> chan c r right = [])
               then Some (c\<lparr>procs := (procs c)[r := wait_sends p]\<rparr>)
               else None
           | Returned \<Rightarrow> None
           | Undefined \<Rightarrow> None)"

text \<open>
  A run of the communicator under a schedule: the list of the ranks that move, in
  order.  A schedule that asks a blocked rank to move is not a run.
\<close>

fun run :: "'a arith \<Rightarrow> bool \<Rightarrow> nat list \<Rightarrow> 'a comm \<Rightarrow> 'a comm option" where
  "run A buffered [] c = Some c"
| "run A buffered (r # rs) c =
     (case rank_step A buffered c r of None \<Rightarrow> None | Some c' \<Rightarrow> run A buffered rs c')"

text \<open>
  The start: every rank \<open>r\<close> has entered \<open>heat_parallel\<close> with its own array
  \<open>uks ! r\<close> and the same \<open>dx\<close>, \<open>Nx\<close>, \<open>dt\<close>, \<open>Nt\<close>; no message is in flight.
  \<open>g r\<close> gives the indeterminate contents of the blocks that rank \<open>r\<close> allocates.
\<close>

definition mpi_start ::
  "'a arith \<Rightarrow> (nat \<Rightarrow> nat \<Rightarrow> 'a) \<Rightarrow> 'a list list \<Rightarrow> 'a \<Rightarrow> nat \<Rightarrow> 'a \<Rightarrow> nat \<Rightarrow> 'a comm" where
  "mpi_start A g uks dx Nx0 dt Nt0 =
     \<lparr>procs = map (\<lambda>r. heat_parallel_enter A (g r) (uks ! r) dx Nx0 dt Nt0) [0..<length uks],
      chan = (\<lambda>src dst. [])\<rparr>"

definition pcs :: "'a comm \<Rightarrow> pc list" where
  "pcs c = map pc (procs c)"

definition all_returned :: "'a comm \<Rightarrow> bool" where
  "all_returned c = list_all (\<lambda>p. pc p = Returned) (procs c)"

text \<open>
  The caller's view: it splits the global field \<open>U\<close> into \<open>P\<close> contiguous slices of
  \<open>Nx\<close> cells, rank \<open>r\<close> getting the cells \<open>r*Nx .. r*Nx + Nx - 1\<close>, and afterwards
  puts the arrays \<open>uk\<close> of the ranks one after the other.
\<close>

definition slice :: "nat \<Rightarrow> nat \<Rightarrow> 'a list \<Rightarrow> 'a list" where
  "slice n r U = take n (drop (r * n) U)"

definition slices :: "nat \<Rightarrow> nat \<Rightarrow> 'a list \<Rightarrow> 'a list list" where
  "slices P n U = map (\<lambda>r. slice n r U) [0..<P]"

definition gather :: "'a comm \<Rightarrow> 'a list" where
  "gather c = concat (map uk (procs c))"

subsection \<open>The arithmetic of double\<close>

text \<open>
  On the platforms the program is built for, \<^verbatim>\<open>double\<close> is the binary64 format of
  IEEE 754 and \<^verbatim>\<open>+ - * /\<close> round to nearest, ties to even, each operator rounding
  its own result (no fused multiply-add, no wider intermediate format).  A finite
  double is
  \<open>Finite s m e\<close>, of value \<open>(-1)^s * m * 2^e\<close>; it is a double when
  \<open>m < 2^53\<close>, \<open>-1074 \<le> e \<le> 971\<close> and \<open>m \<ge> 2^52\<close> unless \<open>e = -1074\<close>
  (the subnormal numbers and the two zeros), which makes the representation unique.
  The NaNs are one value: which payload an operation returns is not fixed by C.
\<close>

datatype double = Finite bool int int | Infinity bool | NaN

fun is_double :: "double \<Rightarrow> bool" where
  "is_double (Finite s m e) =
     (0 \<le> m \<and> m < 2 ^ 53 \<and> - 1074 \<le> e \<and> e \<le> 971 \<and> (2 ^ 52 \<le> m \<or> e = - 1074))"
| "is_double (Infinity s) = True"
| "is_double NaN = True"

fun is_finite :: "double \<Rightarrow> bool" where
  "is_finite (Finite s m e) = True"
| "is_finite (Infinity s) = False"
| "is_finite NaN = False"

function bitlength :: "int \<Rightarrow> nat" where
  "bitlength n = (if n \<le> 0 then 0 else Suc (bitlength (n div 2)))"
  by pat_completeness auto
termination
  by (relation "measure nat") auto

declare bitlength.simps [simp del]

text \<open>
  \<open>round_even s M E\<close> is the double nearest to \<open>(-1)^s * M * 2^E\<close> for \<open>M > 0\<close>,
  the one with the even significand when two are equally near, and infinity when
  the rounded value is beyond the largest double.  The exponent \<open>e\<close> of the result
  is chosen so that 53 bits of \<open>M\<close> remain, but not below \<open>-1074\<close>
  (\<open>round_at\<close>); the bits below \<open>2^e\<close> are cut off, \<open>q\<close> being what remains,
  \<open>rest\<close> what is cut and \<open>half\<close> half a unit of \<open>q\<close> (\<open>round_cut\<close>);
  a carry out of the 53 bits and the overflow are handled last (\<open>pack\<close>).
\<close>

definition pack :: "bool \<Rightarrow> int \<Rightarrow> int \<Rightarrow> double" where
  "pack s m e =
     (if m = 2 ^ 53 then (if 971 < e + 1 then Infinity s else Finite s (2 ^ 52) (e + 1))
      else (if 971 < e then Infinity s else Finite s m e))"

definition round_cut :: "bool \<Rightarrow> int \<Rightarrow> int \<Rightarrow> int \<Rightarrow> int \<Rightarrow> double" where
  "round_cut s q rest half e =
     pack s (if half < rest \<or> (rest = half \<and> odd q) then q + 1 else q) e"

definition round_at :: "bool \<Rightarrow> int \<Rightarrow> int \<Rightarrow> int \<Rightarrow> double" where
  "round_at s M E e =
     (if e \<le> E then Finite s (M * 2 ^ nat (E - e)) e
      else round_cut s (M div 2 ^ nat (e - E)) (M mod 2 ^ nat (e - E)) (2 ^ (nat (e - E) - 1)) e)"

definition round_even :: "bool \<Rightarrow> int \<Rightarrow> int \<Rightarrow> double" where
  "round_even s M E = round_at s M E (max (E + int (bitlength M) - 53) (- 1074))"

fun dneg :: "double \<Rightarrow> double" where
  "dneg (Finite s m e) = Finite (\<not> s) m e"
| "dneg (Infinity s) = Infinity (\<not> s)"
| "dneg NaN = NaN"

text \<open>
  The sum of two finite doubles.  With a zero operand the sum is the other operand,
  and \<open>-0\<close> only for \<open>-0 + -0\<close>.  Otherwise the exact sum is the integer \<open>v\<close> times
  \<open>2^e\<close>, \<open>e\<close> the smaller exponent (\<open>add_exact\<close>); it is \<open>+0\<close> when the operands
  cancel and is rounded when they do not.
\<close>

definition add_exact :: "int \<Rightarrow> int \<Rightarrow> double" where
  "add_exact v e = (if v = 0 then Finite False 0 (- 1074) else round_even (v < 0) \<bar>v\<bar> e)"

fun dadd :: "double \<Rightarrow> double \<Rightarrow> double" where
  "dadd NaN y = NaN"
| "dadd x NaN = NaN"
| "dadd (Infinity s) (Infinity t) = (if s = t then Infinity s else NaN)"
| "dadd (Infinity s) (Finite t m e) = Infinity s"
| "dadd (Finite s m e) (Infinity t) = Infinity t"
| "dadd (Finite s1 m1 e1) (Finite s2 m2 e2) =
     (if m1 = 0 \<and> m2 = 0 then Finite (s1 \<and> s2) 0 (- 1074)
      else if m2 = 0 then Finite s1 m1 e1
      else if m1 = 0 then Finite s2 m2 e2
      else add_exact ((if s1 then - m1 else m1) * 2 ^ nat (e1 - min e1 e2)
                      + (if s2 then - m2 else m2) * 2 ^ nat (e2 - min e1 e2))
                     (min e1 e2))"

definition dsub :: "double \<Rightarrow> double \<Rightarrow> double" where
  "dsub x y = dadd x (dneg y)"

fun dmul :: "double \<Rightarrow> double \<Rightarrow> double" where
  "dmul NaN y = NaN"
| "dmul x NaN = NaN"
| "dmul (Infinity s) (Infinity t) = Infinity (s \<noteq> t)"
| "dmul (Infinity s) (Finite t m e) = (if m = 0 then NaN else Infinity (s \<noteq> t))"
| "dmul (Finite s m e) (Infinity t) = (if m = 0 then NaN else Infinity (s \<noteq> t))"
| "dmul (Finite s1 m1 e1) (Finite s2 m2 e2) =
     (if m1 * m2 = 0 then Finite (s1 \<noteq> s2) 0 (- 1074)
      else round_even (s1 \<noteq> s2) (m1 * m2) (e1 + e2))"

text \<open>
  The quotient of two non-zero finite doubles is not a dyadic number in general.
  It is cut after more than 55 significant bits and a last bit records whether
  anything non-zero was cut off, which rounds as the exact quotient does.
\<close>

fun ddiv :: "double \<Rightarrow> double \<Rightarrow> double" where
  "ddiv NaN y = NaN"
| "ddiv x NaN = NaN"
| "ddiv (Infinity s) (Infinity t) = NaN"
| "ddiv (Infinity s) (Finite t m e) = Infinity (s \<noteq> t)"
| "ddiv (Finite s m e) (Infinity t) = Finite (s \<noteq> t) 0 (- 1074)"
| "ddiv (Finite s1 m1 e1) (Finite s2 m2 e2) =
     (if m2 = 0 then (if m1 = 0 then NaN else Infinity (s1 \<noteq> s2))
      else if m1 = 0 then Finite (s1 \<noteq> s2) 0 (- 1074)
      else round_even (s1 \<noteq> s2)
             (2 * (m1 * 2 ^ 108 div m2) + (if m1 * 2 ^ 108 mod m2 = 0 then 0 else 1))
             (e1 - e2 - 109))"

definition double_arith :: "double arith" where
  "double_arith = \<lparr>fadd = dadd, fsub = dsub, fmul = dmul, fdiv = ddiv,
                    ftwo = Finite False (2 ^ 52) (- 51)\<rparr>"

text \<open>
  The double nearest to an integer times a power of two, for writing down inputs:
  \<open>dbl 1 0\<close> is 1.0 and \<open>dbl 1 (-2)\<close> is 0.25.
\<close>

definition dbl :: "int \<Rightarrow> int \<Rightarrow> double" where
  "dbl k E = (if k = 0 then Finite False 0 (- 1074) else round_even (k < 0) \<bar>k\<bar> E)"

text \<open>
  The comparison \<^verbatim>\<open>==\<close> of C on doubles: a NaN equals nothing and the two
  zeros are equal.
\<close>

fun deq :: "double \<Rightarrow> double \<Rightarrow> bool" where
  "deq NaN y = False"
| "deq x NaN = False"
| "deq (Infinity s) (Infinity t) = (s = t)"
| "deq (Infinity s) (Finite t m e) = False"
| "deq (Finite s m e) (Infinity t) = False"
| "deq (Finite s1 m1 e1) (Finite s2 m2 e2) =
     (m1 = 0 \<and> m2 = 0 \<or> s1 = s2 \<and> m1 = m2 \<and> e1 = e2)"

text \<open>Named doubles: the zeros, the largest finite double, and blocks of NaNs (for one
  process and for every rank).\<close>

definition plus_zero :: double where
  "plus_zero = Finite False 0 (- 1074)"

definition minus_zero :: double where
  "minus_zero = Finite True 0 (- 1074)"

definition dbl_max :: double where
  "dbl_max = Finite False (2 ^ 53 - 1) 971"

definition nan_block :: "nat \<Rightarrow> double" where
  "nan_block i = NaN"

definition nan_blocks :: "nat \<Rightarrow> nat \<Rightarrow> double" where
  "nan_blocks r i = NaN"

subsection \<open>The scheme as the specification words it\<close>

text \<open>
  The specification describes one Euler step on a periodic grid as a whole:
  every point is replaced by \<open>current[i] + \<nu> * (current[i-1] - 2*current[i] + current[i+1])\<close>,
  the index \<open>-1\<close> meaning the last point and the index after the last meaning point 0,
  all values read from the field before the step.  \<open>periodic_step\<close> and \<open>evolve\<close>
  are that description; the kernels above are compared with them.
\<close>

definition periodic_step :: "'a arith \<Rightarrow> 'a \<Rightarrow> 'a list \<Rightarrow> 'a list" where
  "periodic_step A nu current =
     map (\<lambda>i. stencil A nu (current ! (if i = 0 then length current - 1 else i - 1))
                             (current ! i)
                             (current ! (if i = length current - 1 then 0 else i + 1)))
         [0..<length current]"

fun evolve :: "'a arith \<Rightarrow> 'a \<Rightarrow> nat \<Rightarrow> 'a list \<Rightarrow> 'a list" where
  "evolve A nu 0 u = u"
| "evolve A nu (Suc n) u = evolve A nu n (periodic_step A nu u)"

subsection \<open>What holds in every state of a parallel run\<close>

text \<open>
  The proof that the ranks compute the slices of the serial field needs a description
  of the states a run can reach.  How far a rank has come is read off its loop counter
  and program counter: \<open>nsent\<close> is the number of passes whose two sends it has
  posted, \<open>nrecv_right\<close> and \<open>nrecv_left\<close> the number of values it has received
  from its right and from its left neighbour.
\<close>

definition nsent :: "'a proc \<Rightarrow> nat" where
  "nsent p = step p + (if pc p = AtRecvRight \<or> pc p = AtRecvLeft \<or> pc p = AtWait then 1 else 0)"

definition nrecv_right :: "'a proc \<Rightarrow> nat" where
  "nrecv_right p = step p + (if pc p = AtRecvLeft \<or> pc p = AtWait then 1 else 0)"

definition nrecv_left :: "'a proc \<Rightarrow> nat" where
  "nrecv_left p = step p + (if pc p = AtWait then 1 else 0)"

text \<open>
  The queue from one rank to another, when the sender has posted the sends of \<open>n\<close>
  passes: pass \<open>j\<close> contributes the left-going value \<open>x j\<close> if the receiver is the
  sender's left neighbour (\<open>to_left\<close>) and has not yet taken \<open>j + 1\<close> values from its
  right, then the right-going value \<open>y j\<close> if the receiver is the sender's right
  neighbour (\<open>to_right\<close>) and has not yet taken \<open>j + 1\<close> values from its left.
\<close>

definition queued ::
  "bool \<Rightarrow> bool \<Rightarrow> nat \<Rightarrow> nat \<Rightarrow> (nat \<Rightarrow> 'a) \<Rightarrow> (nat \<Rightarrow> 'a) \<Rightarrow> nat \<Rightarrow> 'a list" where
  "queued to_left to_right a b x y n =
     concat (map (\<lambda>j. (if to_left \<and> a \<le> j then [x j] else []) @
                       (if to_right \<and> b \<le> j then [y j] else [])) [0..<n])"

definition expected_chan ::
  "'a arith \<Rightarrow> 'a \<Rightarrow> nat \<Rightarrow> 'a list \<Rightarrow> 'a proc list \<Rightarrow> nat \<Rightarrow> nat \<Rightarrow> 'a list" where
  "expected_chan A nu n U ps s d =
     queued (left_proc s (length ps) = d) (right_proc s (length ps) = d)
            (nrecv_right (ps ! d)) (nrecv_left (ps ! d))
            (\<lambda>j. evolve A nu j U ! (s * n))
            (\<lambda>j. evolve A nu j U ! (s * n + n - 1))
            (nsent (ps ! s))"

text \<open>
  The variables of rank \<open>r\<close>: \<open>ukt\<close> is the rank's slice of the serial field after
  as many steps as the rank has completed, and \<open>uktp1\<close> holds the cells of the next
  field that are already computed.
\<close>

definition local_inv ::
  "'a arith \<Rightarrow> 'a \<Rightarrow> nat \<Rightarrow> nat \<Rightarrow> 'a list \<Rightarrow> nat \<Rightarrow> 'a proc \<Rightarrow> bool" where
  "local_inv A nu n T U r p =
     (p_Nx p = n \<and> p_Nt p = T \<and> p_nu p = nu \<and>
      length (uk p) = n \<and> length (ukt p) = n \<and> length (uktp1 p) = n \<and>
      (case pc p of
         AtLoop \<Rightarrow> step p \<le> T \<and> ukt p = slice n r (evolve A nu (step p) U)
       | AtRecvRight \<Rightarrow>
           step p < T \<and> ukt p = slice n r (evolve A nu (step p) U) \<and>
           (\<forall>i. 1 \<le> i \<and> i < n - 1 \<longrightarrow> uktp1 p ! i = evolve A nu (Suc (step p)) U ! (r * n + i))
       | AtRecvLeft \<Rightarrow>
           step p < T \<and> ukt p = slice n r (evolve A nu (step p) U) \<and>
           (\<forall>i. 1 \<le> i \<and> i < n \<longrightarrow> uktp1 p ! i = evolve A nu (Suc (step p)) U ! (r * n + i))
       | AtWait \<Rightarrow> step p < T \<and> ukt p = slice n r (evolve A nu (Suc (step p)) U)
       | Returned \<Rightarrow> step p = T \<and> uk p = slice n r (evolve A nu T U)
       | Undefined \<Rightarrow> False))"

definition run_inv :: "'a arith \<Rightarrow> 'a \<Rightarrow> nat \<Rightarrow> nat \<Rightarrow> 'a list \<Rightarrow> 'a comm \<Rightarrow> bool" where
  "run_inv A nu n T U c =
     (length U = length (procs c) * n \<and>
      (\<forall>r < length (procs c). local_inv A nu n T U r (procs c ! r)) \<and>
      (\<forall>s < length (procs c). \<forall>d < length (procs c).
         chan c s d = expected_chan A nu n U (procs c) s d) \<and>
      (\<forall>r < length (procs c).
         nrecv_right (procs c ! r) \<le> nsent (procs c ! right_proc r (length (procs c))) \<and>
         nrecv_left (procs c ! r) \<le> nsent (procs c ! left_proc r (length (procs c)))))"

text \<open>How many moves a rank, and the communicator, still have to make.\<close>

definition moves_done :: "'a proc \<Rightarrow> nat" where
  "moves_done p =
     4 * step p + (case pc p of AtLoop \<Rightarrow> 0 | AtRecvRight \<Rightarrow> 1 | AtRecvLeft \<Rightarrow> 2
                   | AtWait \<Rightarrow> 3 | Returned \<Rightarrow> 1 | Undefined \<Rightarrow> 0)"

definition moves_left :: "nat \<Rightarrow> 'a comm \<Rightarrow> nat" where
  "moves_left T c = (\<Sum>p \<leftarrow> procs c. 4 * T + 1 - moves_done p)"

text \<open>
  With \<open>Nt = 0\<close> a rank is either at the loop head, \<open>ukt\<close> holding the first \<open>n\<close>
  cells of its array, or has returned; its array is the one it was called with.
\<close>

definition zero_inv :: "nat \<Rightarrow> 'a list list \<Rightarrow> 'a comm \<Rightarrow> bool" where
  "zero_inv n uks c =
     (length (procs c) = length uks \<and>
      (\<forall>r < length uks.
         uk (procs c ! r) = uks ! r \<and> p_Nt (procs c ! r) = 0 \<and> p_Nx (procs c ! r) = n \<and>
         step (procs c ! r) = 0 \<and>
         (pc (procs c ! r) = Returned \<or>
          pc (procs c ! r) = AtLoop \<and> ukt (procs c ! r) = take n (uks ! r))))"

section \<open>Properties of the serial kernel\<close>

lemma array_copy_fold_length:
  "length (fold (\<lambda>i t. t[i := f ! i]) is t) = length t"
  by (induction "is" arbitrary: t) simp_all

lemma array_copy_length [simp]: "length (array_copy t f n) = length t"
  by (simp add: array_copy_def array_copy_fold_length)

lemma array_copy_upto:
  "n \<le> length t \<Longrightarrow> n \<le> length f \<Longrightarrow>
   fold (\<lambda>i t. t[i := f ! i]) [0..<n] t = take n f @ drop n t"
proof (induction n)
  case 0
  then show ?case by simp
next
  case (Suc n)
  then have "fold (\<lambda>i t. t[i := f ! i]) [0..<Suc n] t = (take n f @ drop n t)[n := f ! n]"
    by simp
  also have "\<dots> = take n f @ (drop n t)[0 := f ! n]"
    using Suc.prems by (simp add: list_update_append)
  also have "(drop n t)[0 := f ! n] = f ! n # drop (Suc n) t"
    using Suc.prems by (cases "drop n t") (auto simp: drop_Suc drop_tl)
  also have "take n f @ f ! n # drop (Suc n) t = take (Suc n) f @ drop (Suc n) t"
    using Suc.prems by (simp add: take_Suc_conv_app_nth)
  finally show ?case .
qed

lemma array_copy_eq:
  "n \<le> length t \<Longrightarrow> n \<le> length f \<Longrightarrow> array_copy t f n = take n f @ drop n t"
  by (simp add: array_copy_def array_copy_upto)

lemma array_copy_all [simp]:
  "length t = n \<Longrightarrow> length f = n \<Longrightarrow> array_copy t f n = f"
  by (simp add: array_copy_eq)

lemma malloc_length [simp]: "length (malloc g n) = n"
  by (simp add: malloc_def)

lemma fold_update_length [simp]:
  "length (fold (\<lambda>i w. w[i := h i]) is w) = length w"
  by (induction "is" arbitrary: w) simp_all

lemma fold_update_nth:
  "b \<le> length w \<Longrightarrow>
   fold (\<lambda>i w. w[i := h i]) [a..<b] w ! k = (if a \<le> k \<and> k < b then h k else w ! k)"
proof (induction b)
  case 0
  then show ?case by simp
next
  case (Suc b)
  show ?case
  proof (cases "a \<le> b")
    case True
    with Suc show ?thesis by (auto simp: nth_list_update)
  next
    case False
    then show ?thesis by auto
  qed
qed

lemma interior_length [simp]: "length (interior A nu Nx ut utp1) = length utp1"
  by (simp add: interior_def)

lemma interior_nth:
  "Nx \<le> Suc (length utp1) \<Longrightarrow>
   interior A nu Nx ut utp1 ! k =
     (if 1 \<le> k \<and> k < Nx - 1 then stencil A nu (ut ! (k - 1)) (ut ! k) (ut ! (k + 1))
      else utp1 ! k)"
  unfolding interior_def by (subst fold_update_nth) auto

lemma euler_step_length [simp]: "length (euler_step A nu Nx ut utp1) = length utp1"
  by (simp add: euler_step_def Let_def)

lemma euler_step_nth:
  assumes "2 \<le> Nx" "length utp1 = Nx" "k < Nx"
  shows "euler_step A nu Nx ut utp1 ! k =
           stencil A nu (ut ! (if k = 0 then Nx - 1 else k - 1)) (ut ! k)
                        (ut ! (if k = Nx - 1 then 0 else k + 1))"
  using assms by (auto simp: euler_step_def Let_def nth_list_update interior_nth numeral_2_eq_2)

lemma euler_step_scratch:
  fixes Nx :: nat
  assumes "2 \<le> Nx" "length w1 = Nx" "length w2 = Nx"
  shows "euler_step A nu Nx ut w1 = euler_step A nu Nx ut w2"
  using assms by (intro nth_equalityI) (simp_all add: euler_step_nth)

lemma periodic_step_length [simp]: "length (periodic_step A nu u) = length u"
  by (simp add: periodic_step_def)

lemma evolve_length [simp]: "length (evolve A nu n u) = length u"
  by (induction n arbitrary: u) simp_all

lemma evolve_Suc: "evolve A nu (Suc n) u = periodic_step A nu (evolve A nu n u)"
  by (induction n arbitrary: u) simp_all

lemma euler_step_periodic:
  fixes Nx :: nat
  assumes "2 \<le> Nx" "length ut = Nx" "length utp1 = Nx"
  shows "euler_step A nu Nx ut utp1 = periodic_step A nu ut"
  using assms
  by (intro nth_equalityI) (simp_all add: euler_step_nth periodic_step_def del: upt_Suc)

lemma time_loop_evolve:
  fixes Nx :: nat
  assumes "2 \<le> Nx" "length ut = Nx" "length utp1 = Nx"
  shows "fst (time_loop A nu Nx n (ut, utp1)) = evolve A nu n ut
       \<and> length (snd (time_loop A nu Nx n (ut, utp1))) = Nx"
  using assms
proof (induction n arbitrary: ut utp1)
  case 0
  then show ?case by simp
next
  case (Suc n)
  have "time_loop A nu Nx (Suc n) (ut, utp1) = time_loop A nu Nx n (periodic_step A nu ut, ut)"
    using Suc.prems by (simp add: serial_iter_def euler_step_periodic)
  moreover have "length (periodic_step A nu ut) = Nx"
    using Suc.prems by simp
  ultimately show ?case
    using Suc.IH [of "periodic_step A nu ut" ut] Suc.prems by simp
qed

lemma heat_serial_evolve:
  fixes Nx :: nat
  assumes "2 \<le> Nx" "Nx \<le> length u"
  shows "heat_serial A g u dx Nx dt Nt =
           Inr (evolve A (fdiv A dt (fmul A dx dx)) Nt (take Nx u) @ drop Nx u)"
proof -
  let ?nu = "fdiv A dt (fmul A dx dx)"
  have start: "array_copy (malloc g Nx) u Nx = take Nx u"
    using assms by (simp add: array_copy_eq)
  obtain a b where ab: "time_loop A ?nu Nx Nt (take Nx u, malloc g Nx) = (a, b)"
    by (cases "time_loop A ?nu Nx Nt (take Nx u, malloc g Nx)")
  have a: "a = evolve A ?nu Nt (take Nx u)"
    using time_loop_evolve [of Nx "take Nx u" "malloc g Nx" A ?nu Nt] assms ab by simp
  have "heat_serial A g u dx Nx dt Nt = Inr (array_copy u a Nx)"
    using assms ab by (simp add: heat_serial_def Let_def start)
  also have "array_copy u a Nx = a @ drop Nx u"
    using assms by (simp add: a array_copy_eq)
  finally show ?thesis by (simp add: a)
qed

lemma heat_serial_zero:
  fixes Nx :: nat
  assumes "Nx \<le> length u"
  shows "heat_serial A g u dx Nx dt 0 = Inr u"
  using assms by (simp add: heat_serial_def Let_def array_copy_eq)

lemma heat_serial_junk:
  "heat_serial A g u dx Nx dt Nt = heat_serial A g' u dx Nx dt Nt"
proof (cases "length u < Nx \<or> (0 < Nt \<and> Nx < 2)")
  case True
  then show ?thesis by (simp add: heat_serial_def)
next
  case False
  then have len: "Nx \<le> length u" by simp
  show ?thesis
  proof (cases "Nt = 0")
    case True
    then show ?thesis using len by (simp add: heat_serial_zero)
  next
    case False
    then have "2 \<le> Nx" using \<open>\<not> (length u < Nx \<or> (0 < Nt \<and> Nx < 2))\<close> by simp
    then show ?thesis using len by (simp add: heat_serial_evolve)
  qed
qed

section \<open>Properties of the parallel kernel\<close>

subsection \<open>Neighbours on the ring and message queues\<close>

lemma left_proc_eq:
  "r < P \<Longrightarrow> left_proc r P = (if r = 0 then P - 1 else r - 1)"
proof -
  assume r: "r < P"
  show ?thesis
  proof (cases "r = 0")
    case True
    then have "(int r - 1 + int P) mod int P = int P - 1"
      using r by (simp add: zmod_minus1)
    then show ?thesis using True r by (simp add: left_proc_def)
  next
    case False
    have "(int r - 1 + int P) mod int P = (int r - 1) mod int P"
      by (rule mod_add_self2)
    also have "\<dots> = int r - 1" using False r by simp
    finally show ?thesis using False r by (simp add: left_proc_def)
  qed
qed

lemma right_proc_eq:
  "r < P \<Longrightarrow> right_proc r P = (if r = P - 1 then 0 else r + 1)"
proof -
  assume r: "r < P"
  show ?thesis
  proof (cases "r = P - 1")
    case True
    then have "int r + 1 = int P" using r by simp
    then show ?thesis using True by (simp add: right_proc_def)
  next
    case False
    then have "(int r + 1) mod int P = int r + 1" using r by simp
    then show ?thesis using False by (simp add: right_proc_def)
  qed
qed

lemma left_proc_less: "r < P \<Longrightarrow> left_proc r P < P"
  by (auto simp: left_proc_eq)

lemma right_proc_less: "r < P \<Longrightarrow> right_proc r P < P"
  by (auto simp: right_proc_eq)

lemma right_left_proc: "r < P \<Longrightarrow> right_proc (left_proc r P) P = r"
  by (auto simp: left_proc_eq right_proc_eq)

lemma left_right_proc: "r < P \<Longrightarrow> left_proc (right_proc r P) P = r"
  by (auto simp: left_proc_eq right_proc_eq)

lemma left_proc_iff: "s < P \<Longrightarrow> d < P \<Longrightarrow> left_proc s P = d \<longleftrightarrow> right_proc d P = s"
  using right_left_proc left_right_proc by metis

lemma right_proc_iff: "s < P \<Longrightarrow> d < P \<Longrightarrow> right_proc s P = d \<longleftrightarrow> left_proc d P = s"
  using right_left_proc left_right_proc by metis

lemma queued_before:
  "n \<le> a \<Longrightarrow> n \<le> b \<Longrightarrow> queued cl cr a b x y n = []"
  by (simp add: queued_def)

lemma queued_split:
  "k \<le> n \<Longrightarrow>
   queued cl cr a b x y n =
     queued cl cr a b x y k @
     concat (map (\<lambda>j. (if cl \<and> a \<le> j then [x j] else []) @
                       (if cr \<and> b \<le> j then [y j] else [])) [k..<n])"
proof -
  assume "k \<le> n"
  then have "[0..<n] = [0..<k] @ [k..<n]"
    by (metis le0 upt_add_eq_append le_add_diff_inverse)
  then show ?thesis by (simp add: queued_def)
qed

lemma queued_tail_cong:
  assumes "a \<le> k" "b \<le> k" "a' \<le> k" "b' \<le> k"
  shows "concat (map (\<lambda>j. (if cl \<and> a \<le> j then [x j] else []) @
                       (if cr \<and> b \<le> j then [y j] else [])) [k..<n])
       = concat (map (\<lambda>j. (if cl \<and> a' \<le> j then [x j] else []) @
                       (if cr \<and> b' \<le> j then [y j] else [])) [k..<n])"
proof -
  have "map (\<lambda>j. (if cl \<and> a \<le> j then [x j] else []) @
                       (if cr \<and> b \<le> j then [y j] else [])) [k..<n]
      = map (\<lambda>j. (if cl \<and> a' \<le> j then [x j] else []) @
                       (if cr \<and> b' \<le> j then [y j] else [])) [k..<n]"
  proof (rule map_cong [OF refl])
    fix j assume "j \<in> set [k..<n]"
    then have "k \<le> j" by simp
    with assms show "(if cl \<and> a \<le> j then [x j] else []) @ (if cr \<and> b \<le> j then [y j] else [])
        = (if cl \<and> a' \<le> j then [x j] else []) @ (if cr \<and> b' \<le> j then [y j] else [])"
      by simp
  qed
  then show ?thesis by (simp only:)
qed

lemma queued_take_left:
  assumes "cl" "queued cl cr k k x y n = v # q"
  shows "k < n \<and> v = x k \<and> q = queued cl cr (Suc k) k x y n"
proof -
  have kn: "k < n"
  proof (rule ccontr)
    assume "\<not> k < n"
    then have "queued cl cr k k x y n = []" by (simp add: queued_before)
    with assms show False by simp
  qed
  let ?f = "\<lambda>a b j. (if cl \<and> a \<le> j then [x j] else []) @ (if cr \<and> b \<le> j then [y j] else [])"
  have up: "[k..<n] = k # [Suc k..<n]" using kn by (simp add: upt_rec)
  have "queued cl cr k k x y n = concat (map (?f k k) [k..<n])"
    using queued_split [of k n cl cr k k x y] kn by (simp add: queued_before)
  also have "\<dots> = x k # (if cr then [y k] else []) @ concat (map (?f k k) [Suc k..<n])"
    using assms(1) by (simp add: up)
  finally have 1: "queued cl cr k k x y n = x k # (if cr then [y k] else []) @ concat (map (?f k k) [Suc k..<n])" .
  have "queued cl cr (Suc k) k x y n = concat (map (?f (Suc k) k) [k..<n])"
    using queued_split [of k n cl cr "Suc k" k x y] kn by (simp add: queued_before)
  also have "\<dots> = (if cr then [y k] else []) @ concat (map (?f (Suc k) k) [Suc k..<n])"
    by (simp add: up)
  also have "concat (map (?f (Suc k) k) [Suc k..<n]) = concat (map (?f k k) [Suc k..<n])"
    by (rule queued_tail_cong) simp_all
  finally have 2: "queued cl cr (Suc k) k x y n = (if cr then [y k] else []) @ concat (map (?f k k) [Suc k..<n])" .
  from 1 2 assms(2) kn show ?thesis by simp
qed

lemma queued_take_right:
  assumes "cr" "queued cl cr (Suc k) k x y n = v # q"
  shows "k < n \<and> v = y k \<and> q = queued cl cr (Suc k) (Suc k) x y n"
proof -
  have kn: "k < n"
  proof (rule ccontr)
    assume "\<not> k < n"
    then have "queued cl cr (Suc k) k x y n = []" by (simp add: queued_before)
    with assms show False by simp
  qed
  let ?f = "\<lambda>a b j. (if cl \<and> a \<le> j then [x j] else []) @ (if cr \<and> b \<le> j then [y j] else [])"
  have up: "[k..<n] = k # [Suc k..<n]" using kn by (simp add: upt_rec)
  have "queued cl cr (Suc k) k x y n = concat (map (?f (Suc k) k) [k..<n])"
    using queued_split [of k n cl cr "Suc k" k x y] kn by (simp add: queued_before)
  also have "\<dots> = y k # concat (map (?f (Suc k) k) [Suc k..<n])"
    using assms(1) by (simp add: up)
  finally have 1: "queued cl cr (Suc k) k x y n = y k # concat (map (?f (Suc k) k) [Suc k..<n])" .
  have "queued cl cr (Suc k) (Suc k) x y n = concat (map (?f (Suc k) (Suc k)) [Suc k..<n])"
    using queued_split [of "Suc k" n cl cr "Suc k" "Suc k" x y] kn by (simp add: queued_before)
  also have "\<dots> = concat (map (?f (Suc k) k) [Suc k..<n])"
    by (rule queued_tail_cong) simp_all
  finally have 2: "queued cl cr (Suc k) (Suc k) x y n = concat (map (?f (Suc k) k) [Suc k..<n])" .
  from 1 2 assms(2) kn show ?thesis by simp
qed

lemma queued_not_left: "\<not> cl \<Longrightarrow> queued cl cr a b x y n = queued cl cr a' b x y n"
  by (simp add: queued_def)

lemma queued_not_right: "\<not> cr \<Longrightarrow> queued cl cr a b x y n = queued cl cr a b' x y n"
  by (simp add: queued_def)

lemma queued_post:
  assumes "cl \<longrightarrow> a \<le> n" "cr \<longrightarrow> b \<le> n"
  shows "queued cl cr a b x y (Suc n) =
           queued cl cr a b x y n @ (if cl then [x n] else []) @ (if cr then [y n] else [])"
  using assms by (simp add: queued_def)

lemma periodic_step_nth:
  "i < length u \<Longrightarrow>
   periodic_step A nu u ! i =
     stencil A nu (u ! (if i = 0 then length u - 1 else i - 1)) (u ! i)
                  (u ! (if i = length u - 1 then 0 else i + 1))"
  by (simp add: periodic_step_def del: upt_Suc)

lemma slice_bound:
  fixes n :: nat
  assumes "r < P"
  shows "r * n + n \<le> P * n"
proof -
  have "Suc r * n \<le> P * n" using assms by (intro mult_le_mono1) simp
  then show ?thesis by (simp add: add.commute)
qed

lemma slice_length [simp]:
  "length U = P * n \<Longrightarrow> r < P \<Longrightarrow> length (slice n r U) = n"
  using slice_bound [of r P n] by (simp add: slice_def)

lemma slice_nth:
  "length U = P * n \<Longrightarrow> r < P \<Longrightarrow> i < n \<Longrightarrow> slice n r U ! i = U ! (r * n + i)"
  using slice_bound [of r P n] by (simp add: slice_def)

lemma concat_slices:
  "length U = P * n \<Longrightarrow> concat (map (\<lambda>r. slice n r U) [0..<P]) = U"
proof (induction P arbitrary: U rule: nat.induct)
  case zero
  then show ?case by simp
next
  case (Suc P)
  have "concat (map (\<lambda>r. slice n r U) [0..<Suc P]) =
        concat (map (\<lambda>r. slice n r U) [0..<P]) @ slice n P U"
    by simp
  also have "map (\<lambda>r. slice n r U) [0..<P] = map (\<lambda>r. slice n r (take (P * n) U)) [0..<P]"
  proof (rule map_cong [OF refl])
    fix r assume "r \<in> set [0..<P]"
    then have "r < P" by simp
    then have "r * n + n \<le> P * n" by (rule slice_bound)
    then show "slice n r U = slice n r (take (P * n) U)"
      by (simp add: slice_def take_drop min_def)
  qed
  also have "concat \<dots> = take (P * n) U"
    using Suc.prems by (intro Suc.IH) simp
  also have "slice n P U = drop (P * n) U"
    using Suc.prems by (simp add: slice_def)
  finally show ?case by simp
qed

subsection \<open>The serial field seen from one slice\<close>

lemma evolve_Suc_nth:
  assumes "idx < length U"
  shows "evolve A nu (Suc k) U ! idx =
           stencil A nu (evolve A nu k U ! (if idx = 0 then length U - 1 else idx - 1))
                        (evolve A nu k U ! idx)
                        (evolve A nu k U ! (if idx = length U - 1 then 0 else idx + 1))"
  using assms by (simp add: evolve_Suc periodic_step_nth del: evolve.simps)

lemma evolve_interior:
  fixes n :: nat
  assumes "length U = P * n" "r < P" "1 \<le> i" "i < n - 1"
  shows "evolve A nu (Suc k) U ! (r * n + i) =
           stencil A nu (slice n r (evolve A nu k U) ! (i - 1))
                        (slice n r (evolve A nu k U) ! i)
                        (slice n r (evolve A nu k U) ! (i + 1))"
proof -
  let ?G = "evolve A nu k U"
  have len: "length ?G = P * n" using assms(1) by simp
  have bound: "r * n + n \<le> P * n" using assms(2) by (rule slice_bound)
  have idx: "r * n + i < length ?G" "r * n + i \<noteq> 0" "r * n + i \<noteq> length ?G - 1"
    using assms(3,4) bound len by linarith+
  have "evolve A nu (Suc k) U ! (r * n + i) =
          stencil A nu (?G ! (r * n + i - 1)) (?G ! (r * n + i)) (?G ! (r * n + i + 1))"
    using evolve_Suc_nth [of "r * n + i" U A nu k] idx len by (simp only: if_False evolve_length)
  moreover have "slice n r ?G ! (i - 1) = ?G ! (r * n + i - 1)"
    using slice_nth [OF len assms(2), of "i - 1"] assms(3,4) by simp
  moreover have "slice n r ?G ! i = ?G ! (r * n + i)"
    using slice_nth [OF len assms(2), of i] assms(3,4) by simp
  moreover have "slice n r ?G ! (i + 1) = ?G ! (r * n + i + 1)"
    using slice_nth [OF len assms(2), of "i + 1"] assms(3,4) by (simp add: add.assoc)
  ultimately show ?thesis by simp
qed

lemma evolve_right_edge:
  fixes n :: nat
  assumes "length U = P * n" "r < P" "2 \<le> n"
  shows "evolve A nu (Suc k) U ! (r * n + (n - 1)) =
           stencil A nu (slice n r (evolve A nu k U) ! (n - 2))
                        (slice n r (evolve A nu k U) ! (n - 1))
                        (evolve A nu k U ! (right_proc r P * n))"
proof -
  let ?G = "evolve A nu k U"
  have len: "length ?G = P * n" using assms(1) by simp
  have bound: "r * n + n \<le> P * n" using assms(2) by (rule slice_bound)
  have idx: "r * n + (n - 1) < length ?G" "r * n + (n - 1) \<noteq> 0"
    using assms(3) bound len by linarith+
  have last: "r * n + (n - 1) = length ?G - 1 \<longleftrightarrow> r = P - 1"
  proof
    assume "r * n + (n - 1) = length ?G - 1"
    then have "r * n + n = P * n" using assms(3) bound len by linarith
    then have "Suc r * n = P * n" by (simp add: add.commute)
    then have "Suc r = P \<or> n = 0" by (simp only: mult_cancel2)
    then have "Suc r = P" using assms(3) by simp
    then show "r = P - 1" by simp
  next
    assume "r = P - 1"
    then have "Suc r = P" using assms(2) by simp
    then have "P * n = r * n + n" by (metis mult_Suc add.commute)
    then show "r * n + (n - 1) = length ?G - 1" using len assms(3) by simp
  qed
  have nxt: "(if r * n + (n - 1) = length ?G - 1 then 0 else r * n + (n - 1) + 1) = right_proc r P * n"
    using assms(2,3) last by (auto simp: right_proc_eq)
  have "evolve A nu (Suc k) U ! (r * n + (n - 1)) =
          stencil A nu (?G ! (r * n + (n - 1) - 1)) (?G ! (r * n + (n - 1)))
            (?G ! (if r * n + (n - 1) = length ?G - 1 then 0 else r * n + (n - 1) + 1))"
    using evolve_Suc_nth [of "r * n + (n - 1)" U A nu k] idx len by (simp only: if_False evolve_length)
  moreover have "slice n r ?G ! (n - 2) = ?G ! (r * n + (n - 1) - 1)"
  proof -
    have "r * n + (n - 1) - 1 = r * n + (n - 2)" using assms(3) by simp
    then show ?thesis using slice_nth [OF len assms(2), of "n - 2"] assms(3) by simp
  qed
  moreover have "slice n r ?G ! (n - 1) = ?G ! (r * n + (n - 1))"
    using slice_nth [OF len assms(2), of "n - 1"] assms(3) by simp
  ultimately show ?thesis by (simp only: nxt)
qed

lemma evolve_left_edge:
  fixes n :: nat
  assumes "length U = P * n" "r < P" "2 \<le> n"
  shows "evolve A nu (Suc k) U ! (r * n) =
           stencil A nu (evolve A nu k U ! (left_proc r P * n + n - 1))
                        (slice n r (evolve A nu k U) ! 0)
                        (slice n r (evolve A nu k U) ! 1)"
proof -
  let ?G = "evolve A nu k U"
  have len: "length ?G = P * n" using assms(1) by simp
  have bound: "r * n + n \<le> P * n" using assms(2) by (rule slice_bound)
  have idx: "r * n < length ?G" "r * n \<noteq> length ?G - 1"
    using assms(3) bound len by linarith+
  have prev: "(if r * n = 0 then length ?G - 1 else r * n - 1) = left_proc r P * n + n - 1"
  proof (cases "r = 0")
    case True
    have "P * n = (P - 1) * n + n" using assms(2) by (metis Suc_diff_1 True mult_Suc add.commute)
    then show ?thesis using True assms(2) len by (simp add: left_proc_eq)
  next
    case False
    then have "r * n = (r - 1) * n + n" by (metis Suc_diff_1 mult_Suc add.commute not_gr_zero)
    moreover have "r * n \<noteq> 0" using False assms(3) by simp
    ultimately show ?thesis using False assms(2,3) by (simp add: left_proc_eq)
  qed
  have "evolve A nu (Suc k) U ! (r * n) =
          stencil A nu (?G ! (if r * n = 0 then length ?G - 1 else r * n - 1)) (?G ! (r * n))
            (?G ! (r * n + 1))"
    using evolve_Suc_nth [of "r * n" U A nu k] idx len by (simp only: if_False evolve_length)
  moreover have "slice n r ?G ! 0 = ?G ! (r * n)"
    using slice_nth [OF len assms(2), of 0] assms(3) by simp
  moreover have "slice n r ?G ! 1 = ?G ! (r * n + 1)"
    using slice_nth [OF len assms(2), of 1] assms(3) by simp
  ultimately show ?thesis by (simp only: prev)
qed

subsection \<open>The moves of one rank\<close>

declare evolve.simps(2) [simp del]

lemma local_inv_base:
  assumes "local_inv A nu n T U r p"
  shows "p_Nx p = n" "p_Nt p = T" "p_nu p = nu"
    "length (uk p) = n" "length (ukt p) = n" "length (uktp1 p) = n"
  using assms unfolding local_inv_def by blast+

lemma local_inv_ukt:
  assumes "local_inv A nu n T U r p" "pc p = AtLoop \<or> pc p = AtRecvRight \<or> pc p = AtRecvLeft"
  shows "ukt p = slice n r (evolve A nu (step p) U)"
  using assms unfolding local_inv_def by (cases "pc p") simp_all

lemma post_sends_inv:
  fixes n :: nat
  assumes inv: "local_inv A nu n T U r p" and pc: "pc p = AtLoop" and st: "step p < T"
    and U: "length U = P * n" and r: "r < P" and n: "2 \<le> n"
  shows "local_inv A nu n T U r (snd (post_sends A p))"
    and "fst (post_sends A p) =
           (evolve A nu (step p) U ! (r * n), evolve A nu (step p) U ! (r * n + n - 1))"
    and "pc (snd (post_sends A p)) = AtRecvRight"
    and "step (snd (post_sends A p)) = step p"
proof -
  let ?G = "evolve A nu (step p) U"
  have len: "length ?G = P * n" using U by simp
  have base: "p_Nx p = n" "p_nu p = nu" "length (ukt p) = n" "length (uktp1 p) = n"
    "ukt p = slice n r ?G"
    using local_inv_base [OF inv] local_inv_ukt [OF inv] pc by simp_all
  have int: "interior A nu n (ukt p) (uktp1 p) ! i = evolve A nu (Suc (step p)) U ! (r * n + i)"
    if "1 \<le> i \<and> i < n - 1" for i
  proof -
    have "interior A nu n (ukt p) (uktp1 p) ! i =
            stencil A nu (ukt p ! (i - 1)) (ukt p ! i) (ukt p ! (i + 1))"
      using that base(4) by (simp add: interior_nth)
    also have "\<dots> = evolve A nu (Suc (step p)) U ! (r * n + i)"
      using evolve_interior [OF U r, of i A nu "step p"] that by (simp add: base(5))
    finally show ?thesis .
  qed
  show "local_inv A nu n T U r (snd (post_sends A p))"
    using local_inv_base [OF inv] base(5) pc st int
    by (simp add: local_inv_def post_sends_def)
  have "ukt p ! 0 = ?G ! (r * n)"
    using slice_nth [OF len r, of 0] n by (simp add: base(5))
  moreover have "ukt p ! (n - 1) = ?G ! (r * n + n - 1)"
    using slice_nth [OF len r, of "n - 1"] n by (simp add: base(5))
  ultimately show "fst (post_sends A p) = (?G ! (r * n), ?G ! (r * n + n - 1))"
    by (simp add: post_sends_def base)
  show "pc (snd (post_sends A p)) = AtRecvRight" "step (snd (post_sends A p)) = step p"
    by (simp_all add: post_sends_def)
qed

lemma recv_right_inv:
  fixes n :: nat
  assumes inv: "local_inv A nu n T U r p" and pc: "pc p = AtRecvRight"
    and v: "v = evolve A nu (step p) U ! (right_proc r P * n)"
    and U: "length U = P * n" and r: "r < P" and n: "2 \<le> n"
  shows "local_inv A nu n T U r (recv_right A v p)"
proof -
  let ?G = "evolve A nu (step p) U"
  have base: "p_Nx p = n" "p_nu p = nu" "length (ukt p) = n" "length (uktp1 p) = n"
    "ukt p = slice n r ?G"
    using local_inv_base [OF inv] local_inv_ukt [OF inv] pc by simp_all
  have old: "uktp1 p ! i = evolve A nu (Suc (step p)) U ! (r * n + i)"
    if "1 \<le> i \<and> i < n - 1" for i
    using inv pc that by (simp add: local_inv_def)
  have new: "stencil A nu (ukt p ! (n - 2)) (ukt p ! (n - 1)) v =
             evolve A nu (Suc (step p)) U ! (r * n + (n - 1))"
    using evolve_right_edge [OF U r n, of A nu "step p"] by (simp add: base(5) v)
  have "(uktp1 p)[n - 1 := stencil A nu (ukt p ! (n - 2)) (ukt p ! (n - 1)) v] ! i
          = evolve A nu (Suc (step p)) U ! (r * n + i)"
    if "1 \<le> i \<and> i < n" for i
  proof (cases "i = n - 1")
    case True
    then show ?thesis using new base(4) n by simp
  next
    case False
    then have "1 \<le> i \<and> i < n - 1" using that by linarith
    then show ?thesis using old False by simp
  qed
  moreover have "step p < T" using inv pc by (simp add: local_inv_def)
  ultimately show ?thesis
    using local_inv_base [OF inv] base(5) pc
    by (simp add: local_inv_def recv_right_def)
qed

lemma recv_left_inv:
  fixes n :: nat
  assumes inv: "local_inv A nu n T U r p" and pc: "pc p = AtRecvLeft"
    and v: "v = evolve A nu (step p) U ! (left_proc r P * n + n - 1)"
    and U: "length U = P * n" and r: "r < P" and n: "2 \<le> n"
  shows "local_inv A nu n T U r (recv_left A v p)"
proof -
  let ?G = "evolve A nu (step p) U"
  let ?G' = "evolve A nu (Suc (step p)) U"
  have len': "length ?G' = P * n" using U by simp
  have base: "p_Nx p = n" "p_nu p = nu" "length (ukt p) = n" "length (uktp1 p) = n"
    "ukt p = slice n r ?G"
    using local_inv_base [OF inv] local_inv_ukt [OF inv] pc by simp_all
  have old: "uktp1 p ! i = ?G' ! (r * n + i)" if "1 \<le> i \<and> i < n" for i
    using inv pc that by (simp add: local_inv_def)
  have new: "stencil A nu v (ukt p ! 0) (ukt p ! 1) = ?G' ! (r * n)"
    using evolve_left_edge [OF U r n, of A nu "step p"] by (simp add: base(5) v)
  have "(uktp1 p)[0 := stencil A nu v (ukt p ! 0) (ukt p ! 1)] = slice n r ?G'"
  proof (rule nth_equalityI)
    show "length ((uktp1 p)[0 := stencil A nu v (ukt p ! 0) (ukt p ! 1)]) = length (slice n r ?G')"
      using base(4) slice_length [OF len' r] by simp
  next
    fix i assume "i < length ((uktp1 p)[0 := stencil A nu v (ukt p ! 0) (ukt p ! 1)])"
    then have i: "i < n" using base(4) by simp
    show "(uktp1 p)[0 := stencil A nu v (ukt p ! 0) (ukt p ! 1)] ! i = slice n r ?G' ! i"
    proof (cases "i = 0")
      case True
      then show ?thesis using new base(4) n slice_nth [OF len' r, of 0] by simp
    next
      case False
      then have "1 \<le> i \<and> i < n" using i by linarith
      then show ?thesis using old False slice_nth [OF len' r i] by simp
    qed
  qed
  moreover have "step p < T" using inv pc by (simp add: local_inv_def)
  ultimately show ?thesis
    using local_inv_base [OF inv] pc slice_length [OF len' r]
    by (simp add: local_inv_def recv_left_def)
qed

lemma wait_sends_inv:
  assumes inv: "local_inv A nu n T U r p" and pc: "pc p = AtWait"
  shows "local_inv A nu n T U r (wait_sends p)"
proof -
  have "step p < T" "ukt p = slice n r (evolve A nu (Suc (step p)) U)"
    using inv pc by (simp_all add: local_inv_def)
  then show ?thesis
    using local_inv_base [OF inv] by (simp add: local_inv_def wait_sends_def)
qed

lemma finish_inv:
  assumes inv: "local_inv A nu n T U r p" and pc: "pc p = AtLoop" and st: "\<not> step p < T"
  shows "local_inv A nu n T U r (finish p)"
proof -
  have "step p = T" using inv pc st by (simp add: local_inv_def)
  moreover have "ukt p = slice n r (evolve A nu (step p) U)"
    using local_inv_ukt [OF inv] pc by simp
  ultimately show ?thesis
    using local_inv_base [OF inv] by (simp add: local_inv_def finish_def)
qed

subsection \<open>The moves of the communicator\<close>

lemma isend_twice:
  "isend (isend ch r L a) r R b s d =
     (if s = r then ch r d @ (if d = L then [a] else []) @ (if d = R then [b] else [])
      else ch s d)"
  by (simp add: isend_def)

lemma dequeue_apply:
  "dequeue ch s0 d0 s d = (if s = s0 \<and> d = d0 then tl (ch s0 d0) else ch s d)"
  by (simp add: dequeue_def)

lemma run_inv_local:
  "run_inv A nu n T U c \<Longrightarrow> r < length (procs c) \<Longrightarrow> local_inv A nu n T U r (procs c ! r)"
  by (simp add: run_inv_def)

lemma run_inv_chan:
  "run_inv A nu n T U c \<Longrightarrow> s < length (procs c) \<Longrightarrow> d < length (procs c) \<Longrightarrow>
   chan c s d = expected_chan A nu n U (procs c) s d"
  by (simp add: run_inv_def)

lemma run_inv_bounds:
  assumes "run_inv A nu n T U c" "r < length (procs c)"
  shows "nrecv_right (procs c ! r) \<le> nsent (procs c ! right_proc r (length (procs c)))"
    and "nrecv_left (procs c ! r) \<le> nsent (procs c ! left_proc r (length (procs c)))"
  using assms by (simp_all add: run_inv_def)

lemma run_inv_length: "run_inv A nu n T U c \<Longrightarrow> length U = length (procs c) * n"
  by (simp add: run_inv_def)

text \<open>A move that changes none of the three counts of the rank.\<close>

lemma run_inv_quiet:
  assumes inv: "run_inv A nu n T U c" and r: "r < length (procs c)"
    and loc: "local_inv A nu n T U r p'"
    and cnt: "nsent p' = nsent (procs c ! r)" "nrecv_right p' = nrecv_right (procs c ! r)"
             "nrecv_left p' = nrecv_left (procs c ! r)"
  shows "run_inv A nu n T U (c\<lparr>procs := (procs c)[r := p']\<rparr>)"
proof -
  let ?ps = "procs c" and ?ps' = "(procs c)[r := p']"
  have cs: "nsent (?ps' ! q) = nsent (?ps ! q)" "nrecv_right (?ps' ! q) = nrecv_right (?ps ! q)"
    "nrecv_left (?ps' ! q) = nrecv_left (?ps ! q)" if "q < length ?ps" for q
    using r cnt by (auto simp: nth_list_update)
  have 1: "local_inv A nu n T U q (?ps' ! q)" if "q < length ?ps" for q
    using r loc run_inv_local [OF inv that] by (auto simp: nth_list_update)
  have 2: "chan c s d = expected_chan A nu n U ?ps' s d"
    if "s < length ?ps" "d < length ?ps" for s d
    using run_inv_chan [OF inv that] cs that by (simp add: expected_chan_def)
  have 3: "nrecv_right (?ps' ! q) \<le> nsent (?ps' ! right_proc q (length ?ps))"
          "nrecv_left (?ps' ! q) \<le> nsent (?ps' ! left_proc q (length ?ps))"
    if "q < length ?ps" for q
    using run_inv_bounds [OF inv that] cs [OF that]
      cs(1) [OF right_proc_less [OF that]] cs(1) [OF left_proc_less [OF that]]
    by simp_all
  show ?thesis
    using run_inv_length [OF inv] 1 2 3 by (simp add: run_inv_def)
qed

lemma counts_AtLoop:
  "pc p = AtLoop \<Longrightarrow> nsent p = step p \<and> nrecv_right p = step p \<and> nrecv_left p = step p"
  by (simp add: nsent_def nrecv_right_def nrecv_left_def)

lemma counts_AtRecvRight:
  "pc p = AtRecvRight \<Longrightarrow>
   nsent p = Suc (step p) \<and> nrecv_right p = step p \<and> nrecv_left p = step p"
  by (simp add: nsent_def nrecv_right_def nrecv_left_def)

lemma counts_AtRecvLeft:
  "pc p = AtRecvLeft \<Longrightarrow>
   nsent p = Suc (step p) \<and> nrecv_right p = Suc (step p) \<and> nrecv_left p = step p"
  by (simp add: nsent_def nrecv_right_def nrecv_left_def)

lemma counts_AtWait:
  "pc p = AtWait \<Longrightarrow>
   nsent p = Suc (step p) \<and> nrecv_right p = Suc (step p) \<and> nrecv_left p = Suc (step p)"
  by (simp add: nsent_def nrecv_right_def nrecv_left_def)

lemma counts_Returned:
  "pc p = Returned \<Longrightarrow> nsent p = step p \<and> nrecv_right p = step p \<and> nrecv_left p = step p"
  by (simp add: nsent_def nrecv_right_def nrecv_left_def)

lemma run_inv_send:
  fixes n :: nat
  assumes inv: "run_inv A nu n T U c" and r: "r < length (procs c)" and n: "2 \<le> n"
    and pc: "pc (procs c ! r) = AtLoop" and st: "step (procs c ! r) < T"
    and ps: "post_sends A (procs c ! r) = ((eL, eR), p')"
  shows "run_inv A nu n T U
           \<lparr>procs = (procs c)[r := p'],
            chan = isend (isend (chan c) r (left_proc r (length (procs c))) eL)
                         r (right_proc r (length (procs c))) eR\<rparr>"
proof -
  let ?ps = "procs c" and ?ps' = "(procs c)[r := p']"
  let ?P = "length (procs c)"
  let ?p = "procs c ! r"
  let ?x = "\<lambda>s j. evolve A nu j U ! (s * n)"
  let ?y = "\<lambda>s j. evolve A nu j U ! (s * n + n - 1)"
  have U: "length U = ?P * n" by (rule run_inv_length [OF inv])
  note loc = run_inv_local [OF inv r]
  have p': "local_inv A nu n T U r p'" "pc p' = AtRecvRight" "step p' = step ?p"
    and vals: "eL = ?x r (step ?p)" "eR = ?y r (step ?p)"
    using post_sends_inv [OF loc pc st U r n] ps by simp_all
  have old: "nsent ?p = step ?p" "nrecv_right ?p = step ?p" "nrecv_left ?p = step ?p"
    using counts_AtLoop [OF pc] by simp_all
  have new: "nsent p' = Suc (step ?p)" "nrecv_right p' = step ?p" "nrecv_left p' = step ?p"
    using counts_AtRecvRight [OF p'(2)] p'(3) by simp_all
  have rcv: "nrecv_right (?ps' ! q) = nrecv_right (?ps ! q)"
            "nrecv_left (?ps' ! q) = nrecv_left (?ps ! q)" if "q < ?P" for q
    using r old new by (auto simp: nth_list_update)
  have sent: "nsent (?ps' ! q) = (if q = r then Suc (nsent (?ps ! q)) else nsent (?ps ! q))"
    if "q < ?P" for q
    using r old new by (auto simp: nth_list_update)
  have 1: "local_inv A nu n T U q (?ps' ! q)" if "q < ?P" for q
    using r p'(1) run_inv_local [OF inv that] by (auto simp: nth_list_update)
  have 2: "isend (isend (chan c) r (left_proc r ?P) eL) r (right_proc r ?P) eR s d
             = expected_chan A nu n U ?ps' s d"
    if s: "s < ?P" and d: "d < ?P" for s d
  proof (cases "s = r")
    case False
    then show ?thesis
      using run_inv_chan [OF inv s d] rcv [OF d] sent [OF s]
      by (simp add: isend_twice expected_chan_def)
  next
    case True
    let ?cl = "left_proc r ?P = d" and ?cr = "right_proc r ?P = d"
    let ?a = "nrecv_right (?ps ! d)" and ?b = "nrecv_left (?ps ! d)"
    have a: "?cl \<longrightarrow> ?a \<le> step ?p"
    proof
      assume "?cl"
      then have "right_proc d ?P = r" using right_left_proc [OF r] by simp
      then show "?a \<le> step ?p" using run_inv_bounds(1) [OF inv d] old by simp
    qed
    have b: "?cr \<longrightarrow> ?b \<le> step ?p"
    proof
      assume "?cr"
      then have "left_proc d ?P = r" using left_right_proc [OF r] by simp
      then show "?b \<le> step ?p" using run_inv_bounds(2) [OF inv d] old by simp
    qed
    have "expected_chan A nu n U ?ps' r d = queued ?cl ?cr ?a ?b (?x r) (?y r) (Suc (step ?p))"
      using rcv [OF d] sent [OF r] old by (simp add: expected_chan_def)
    also have "\<dots> = queued ?cl ?cr ?a ?b (?x r) (?y r) (step ?p)
                     @ (if ?cl then [?x r (step ?p)] else []) @ (if ?cr then [?y r (step ?p)] else [])"
      by (rule queued_post [OF a b])
    also have "queued ?cl ?cr ?a ?b (?x r) (?y r) (step ?p) = chan c r d"
      using run_inv_chan [OF inv r d] old by (simp add: expected_chan_def)
    finally show ?thesis
      using True vals by (simp add: isend_twice eq_commute)
  qed
  have 3: "nrecv_right (?ps' ! q) \<le> nsent (?ps' ! right_proc q ?P)"
          "nrecv_left (?ps' ! q) \<le> nsent (?ps' ! left_proc q ?P)" if "q < ?P" for q
    using run_inv_bounds [OF inv that] rcv [OF that]
      sent [OF right_proc_less [OF that]] sent [OF left_proc_less [OF that]]
    by (simp_all split: if_splits)
  show ?thesis
    using U 1 2 3 by (simp add: run_inv_def)
qed

lemma run_inv_recv_right:
  fixes n :: nat
  assumes inv: "run_inv A nu n T U c" and r: "r < length (procs c)" and n: "2 \<le> n"
    and pc: "pc (procs c ! r) = AtRecvRight"
    and ch: "chan c (right_proc r (length (procs c))) r = v # q"
  shows "run_inv A nu n T U
           \<lparr>procs = (procs c)[r := recv_right A v (procs c ! r)],
            chan = dequeue (chan c) (right_proc r (length (procs c))) r\<rparr>"
proof -
  let ?P = "length (procs c)"
  let ?p = "procs c ! r" and ?p' = "recv_right A v (procs c ! r)"
  let ?ps = "procs c" and ?ps' = "(procs c)[r := recv_right A v (procs c ! r)]"
  let ?s0 = "right_proc r ?P"
  let ?x = "\<lambda>s j. evolve A nu j U ! (s * n)"
  let ?y = "\<lambda>s j. evolve A nu j U ! (s * n + n - 1)"
  have U: "length U = ?P * n" by (rule run_inv_length [OF inv])
  have s0: "?s0 < ?P" by (rule right_proc_less [OF r])
  have nbr: "left_proc ?s0 ?P = r" by (rule left_right_proc [OF r])
  note loc = run_inv_local [OF inv r]
  have old: "nsent ?p = Suc (step ?p)" "nrecv_right ?p = step ?p" "nrecv_left ?p = step ?p"
    using counts_AtRecvRight [OF pc] by simp_all
  have pc': "pc ?p' = AtRecvLeft" "step ?p' = step ?p"
    by (simp_all add: recv_right_def)
  have new: "nsent ?p' = Suc (step ?p)" "nrecv_right ?p' = Suc (step ?p)" "nrecv_left ?p' = step ?p"
    using counts_AtRecvLeft [OF pc'(1)] pc'(2) by simp_all
  let ?cr = "right_proc ?s0 ?P = r"
  have "chan c ?s0 r = queued True ?cr (step ?p) (step ?p) (?x ?s0) (?y ?s0) (nsent (?ps ! ?s0))"
    using run_inv_chan [OF inv s0 r] nbr old by (simp add: expected_chan_def)
  with ch have "queued True ?cr (step ?p) (step ?p) (?x ?s0) (?y ?s0) (nsent (?ps ! ?s0)) = v # q"
    by simp
  from queued_take_left [OF TrueI this]
  have got: "step ?p < nsent (?ps ! ?s0)" "v = ?x ?s0 (step ?p)"
    "q = queued True ?cr (Suc (step ?p)) (step ?p) (?x ?s0) (?y ?s0) (nsent (?ps ! ?s0))"
    by simp_all
  have p': "local_inv A nu n T U r ?p'"
    by (rule recv_right_inv [OF loc pc got(2) U r n])
  have same: "nsent (?ps' ! k) = nsent (?ps ! k)" "nrecv_left (?ps' ! k) = nrecv_left (?ps ! k)"
    if "k < ?P" for k
    using r old new by (auto simp: nth_list_update)
  have rr: "nrecv_right (?ps' ! k) = (if k = r then Suc (step ?p) else nrecv_right (?ps ! k))"
    if "k < ?P" for k
    using r new by (auto simp: nth_list_update)
  have 1: "local_inv A nu n T U k (?ps' ! k)" if "k < ?P" for k
    using r p' run_inv_local [OF inv that] by (auto simp: nth_list_update)
  have 2: "dequeue (chan c) ?s0 r s d = expected_chan A nu n U ?ps' s d"
    if s: "s < ?P" and d: "d < ?P" for s d
  proof (cases "d = r")
    case False
    then show ?thesis
      using run_inv_chan [OF inv s d] same [OF s] same [OF d] rr [OF d]
      by (simp add: dequeue_apply expected_chan_def)
  next
    case True
    show ?thesis
    proof (cases "s = ?s0")
      case True
      have "expected_chan A nu n U ?ps' ?s0 r = q"
        using same [OF s0] same [OF r] rr [OF r] nbr old got(3)
        by (simp add: expected_chan_def)
      then show ?thesis using True \<open>d = r\<close> ch by (simp add: dequeue_apply)
    next
      case False
      then have nl: "\<not> left_proc s ?P = r"
        using left_proc_iff [OF s r] by auto
      have "expected_chan A nu n U ?ps' s r = expected_chan A nu n U ?ps s r"
        using same [OF s] same [OF r] nl
          queued_not_left [OF nl, of "right_proc s ?P = r" "nrecv_right (?ps' ! r)" "nrecv_left (?ps ! r)"
             "?x s" "?y s" "nsent (?ps ! s)" "nrecv_right (?ps ! r)"]
        by (simp add: expected_chan_def)
      then show ?thesis
        using False \<open>d = r\<close> run_inv_chan [OF inv s r] by (simp add: dequeue_apply)
    qed
  qed
  have 3: "nrecv_right (?ps' ! k) \<le> nsent (?ps' ! right_proc k ?P)"
          "nrecv_left (?ps' ! k) \<le> nsent (?ps' ! left_proc k ?P)" if "k < ?P" for k
    using run_inv_bounds [OF inv that] rr [OF that] same [OF that]
      same(1) [OF right_proc_less [OF that]] same(1) [OF left_proc_less [OF that]] got(1)
    by (auto split: if_splits)
  show ?thesis
    using U 1 2 3 by (simp add: run_inv_def)
qed

lemma run_inv_recv_left:
  fixes n :: nat
  assumes inv: "run_inv A nu n T U c" and r: "r < length (procs c)" and n: "2 \<le> n"
    and pc: "pc (procs c ! r) = AtRecvLeft"
    and ch: "chan c (left_proc r (length (procs c))) r = v # q"
  shows "run_inv A nu n T U
           \<lparr>procs = (procs c)[r := recv_left A v (procs c ! r)],
            chan = dequeue (chan c) (left_proc r (length (procs c))) r\<rparr>"
proof -
  let ?P = "length (procs c)"
  let ?p = "procs c ! r" and ?p' = "recv_left A v (procs c ! r)"
  let ?ps = "procs c" and ?ps' = "(procs c)[r := recv_left A v (procs c ! r)]"
  let ?s0 = "left_proc r ?P"
  let ?x = "\<lambda>s j. evolve A nu j U ! (s * n)"
  let ?y = "\<lambda>s j. evolve A nu j U ! (s * n + n - 1)"
  have U: "length U = ?P * n" by (rule run_inv_length [OF inv])
  have s0: "?s0 < ?P" by (rule left_proc_less [OF r])
  have nbr: "right_proc ?s0 ?P = r" by (rule right_left_proc [OF r])
  note loc = run_inv_local [OF inv r]
  have old: "nsent ?p = Suc (step ?p)" "nrecv_right ?p = Suc (step ?p)" "nrecv_left ?p = step ?p"
    using counts_AtRecvLeft [OF pc] by simp_all
  have pc': "pc ?p' = AtWait" "step ?p' = step ?p"
    by (simp_all add: recv_left_def)
  have new: "nsent ?p' = Suc (step ?p)" "nrecv_right ?p' = Suc (step ?p)" "nrecv_left ?p' = Suc (step ?p)"
    using counts_AtWait [OF pc'(1)] pc'(2) by simp_all
  let ?cl = "left_proc ?s0 ?P = r"
  have "chan c ?s0 r = queued ?cl True (Suc (step ?p)) (step ?p) (?x ?s0) (?y ?s0) (nsent (?ps ! ?s0))"
    using run_inv_chan [OF inv s0 r] nbr old by (simp add: expected_chan_def)
  with ch have "queued ?cl True (Suc (step ?p)) (step ?p) (?x ?s0) (?y ?s0) (nsent (?ps ! ?s0)) = v # q"
    by simp
  from queued_take_right [OF TrueI this]
  have got: "step ?p < nsent (?ps ! ?s0)" "v = ?y ?s0 (step ?p)"
    "q = queued ?cl True (Suc (step ?p)) (Suc (step ?p)) (?x ?s0) (?y ?s0) (nsent (?ps ! ?s0))"
    by simp_all
  have p': "local_inv A nu n T U r ?p'"
    by (rule recv_left_inv [OF loc pc got(2) U r n])
  have same: "nsent (?ps' ! k) = nsent (?ps ! k)" "nrecv_right (?ps' ! k) = nrecv_right (?ps ! k)"
    if "k < ?P" for k
    using r old new by (auto simp: nth_list_update)
  have rl: "nrecv_left (?ps' ! k) = (if k = r then Suc (step ?p) else nrecv_left (?ps ! k))"
    if "k < ?P" for k
    using r new by (auto simp: nth_list_update)
  have 1: "local_inv A nu n T U k (?ps' ! k)" if "k < ?P" for k
    using r p' run_inv_local [OF inv that] by (auto simp: nth_list_update)
  have 2: "dequeue (chan c) ?s0 r s d = expected_chan A nu n U ?ps' s d"
    if s: "s < ?P" and d: "d < ?P" for s d
  proof (cases "d = r")
    case False
    then show ?thesis
      using run_inv_chan [OF inv s d] same [OF s] same [OF d] rl [OF d]
      by (simp add: dequeue_apply expected_chan_def)
  next
    case True
    show ?thesis
    proof (cases "s = ?s0")
      case True
      have "expected_chan A nu n U ?ps' ?s0 r = q"
        using same [OF s0] same [OF r] rl [OF r] nbr old got(3)
        by (simp add: expected_chan_def)
      then show ?thesis using True \<open>d = r\<close> ch by (simp add: dequeue_apply)
    next
      case False
      then have nr: "\<not> right_proc s ?P = r"
        using right_proc_iff [OF s r] by auto
      have "expected_chan A nu n U ?ps' s r = expected_chan A nu n U ?ps s r"
        using same [OF s] same [OF r] nr
          queued_not_right [OF nr, of "left_proc s ?P = r" "nrecv_right (?ps ! r)" "nrecv_left (?ps' ! r)"
             "?x s" "?y s" "nsent (?ps ! s)" "nrecv_left (?ps ! r)"]
        by (simp add: expected_chan_def)
      then show ?thesis
        using False \<open>d = r\<close> run_inv_chan [OF inv s r] by (simp add: dequeue_apply)
    qed
  qed
  have 3: "nrecv_right (?ps' ! k) \<le> nsent (?ps' ! right_proc k ?P)"
          "nrecv_left (?ps' ! k) \<le> nsent (?ps' ! left_proc k ?P)" if "k < ?P" for k
    using run_inv_bounds [OF inv that] rl [OF that] same [OF that]
      same(1) [OF right_proc_less [OF that]] same(1) [OF left_proc_less [OF that]] got(1)
    by (auto split: if_splits)
  show ?thesis
    using U 1 2 3 by (simp add: run_inv_def)
qed

lemma rank_step_inv:
  fixes n :: nat
  assumes inv: "run_inv A nu n T U c" and n: "2 \<le> n"
    and mv: "rank_step A buffered c r = Some c'"
  shows "run_inv A nu n T U c'"
proof -
  let ?p = "procs c ! r"
  have r: "r < length (procs c)"
    using mv by (auto simp: rank_step_def split: if_splits)
  note loc = run_inv_local [OF inv r]
  note base = local_inv_base [OF loc]
  show ?thesis
  proof (cases "pc ?p")
    case AtLoop
    show ?thesis
    proof (cases "step ?p < T")
      case True
      obtain eL eR p' where ps: "post_sends A ?p = ((eL, eR), p')"
        by (metis prod.exhaust)
      have "c' = \<lparr>procs = (procs c)[r := p'],
                  chan = isend (isend (chan c) r (left_proc r (length (procs c))) eL)
                               r (right_proc r (length (procs c))) eR\<rparr>"
        using mv r AtLoop True n base ps by (simp add: rank_step_def Let_def)
      then show ?thesis
        using run_inv_send [OF inv r n AtLoop True ps] by simp
    next
      case False
      have c': "c' = c\<lparr>procs := (procs c)[r := finish ?p]\<rparr>"
        using mv r AtLoop False base by (simp add: rank_step_def Let_def)
      have pc': "pc (finish ?p) = Returned" "step (finish ?p) = step ?p"
        by (simp_all add: finish_def)
      show ?thesis
        unfolding c'
        using counts_AtLoop [OF AtLoop] counts_Returned [OF pc'(1)] pc'(2)
        by (intro run_inv_quiet [OF inv r finish_inv [OF loc AtLoop False]]) simp_all
    qed
  next
    case AtRecvRight
    then obtain v q where ch: "chan c (right_proc r (length (procs c))) r = v # q"
      using mv r by (cases "chan c (right_proc r (length (procs c))) r")
        (simp_all add: rank_step_def Let_def)
    then have "c' = \<lparr>procs = (procs c)[r := recv_right A v ?p],
                     chan = dequeue (chan c) (right_proc r (length (procs c))) r\<rparr>"
      using mv r AtRecvRight by (simp add: rank_step_def Let_def)
    then show ?thesis
      using run_inv_recv_right [OF inv r n AtRecvRight ch] by simp
  next
    case AtRecvLeft
    then obtain v q where ch: "chan c (left_proc r (length (procs c))) r = v # q"
      using mv r by (cases "chan c (left_proc r (length (procs c))) r")
        (simp_all add: rank_step_def Let_def)
    then have "c' = \<lparr>procs = (procs c)[r := recv_left A v ?p],
                     chan = dequeue (chan c) (left_proc r (length (procs c))) r\<rparr>"
      using mv r AtRecvLeft by (simp add: rank_step_def Let_def)
    then show ?thesis
      using run_inv_recv_left [OF inv r n AtRecvLeft ch] by simp
  next
    case AtWait
    have c': "c' = c\<lparr>procs := (procs c)[r := wait_sends ?p]\<rparr>"
      using mv r AtWait by (simp add: rank_step_def Let_def split: if_splits)
    have pc': "pc (wait_sends ?p) = AtLoop" "step (wait_sends ?p) = Suc (step ?p)"
      by (simp_all add: wait_sends_def)
    show ?thesis
      unfolding c'
      using counts_AtWait [OF AtWait] counts_AtLoop [OF pc'(1)] pc'(2)
      by (intro run_inv_quiet [OF inv r wait_sends_inv [OF loc AtWait]]) simp_all
  next
    case Returned
    then show ?thesis using mv r by (simp add: rank_step_def Let_def)
  next
    case Undefined
    then show ?thesis using mv r by (simp add: rank_step_def Let_def)
  qed
qed

lemma run_inv_run:
  fixes n :: nat
  assumes "run_inv A nu n T U c" "2 \<le> n" "run A buffered sched c = Some c'"
  shows "run_inv A nu n T U c'"
  using assms
proof (induction sched arbitrary: c)
  case Nil
  then show ?case by simp
next
  case (Cons r rs)
  then obtain c1 where c1: "rank_step A buffered c r = Some c1" "run A buffered rs c1 = Some c'"
    by (auto split: option.splits)
  then show ?case
    using Cons.IH [of c1] rank_step_inv [OF Cons.prems(1,2) c1(1)] Cons.prems(2) by simp
qed

lemma mpi_start_inv:
  fixes n :: nat
  assumes U: "length U = P * n"
  shows "run_inv A (fdiv A dt (fmul A dx dx)) n T U (mpi_start A g (slices P n U) dx n dt T)"
proof -
  let ?nu = "fdiv A dt (fmul A dx dx)"
  let ?c = "mpi_start A g (slices P n U) dx n dt T"
  have len: "length (procs ?c) = P"
    by (simp add: mpi_start_def slices_def)
  have p: "procs ?c ! r = heat_parallel_enter A (g r) (slice n r U) dx n dt T" if "r < P" for r
    using that by (simp add: mpi_start_def slices_def)
  have start: "pc (procs ?c ! r) = AtLoop" "step (procs ?c ! r) = 0" if "r < P" for r
    using that slice_length [OF U that] by (simp_all add: p heat_parallel_enter_def)
  have 1: "local_inv A ?nu n T U r (procs ?c ! r)" if "r < P" for r
    using that slice_length [OF U that]
    by (simp add: p heat_parallel_enter_def local_inv_def)
  have cnt: "nsent (procs ?c ! r) = 0" "nrecv_right (procs ?c ! r) = 0" "nrecv_left (procs ?c ! r) = 0"
    if "r < P" for r
    using counts_AtLoop [OF start(1) [OF that]] start(2) [OF that] by simp_all
  have 2: "chan ?c s d = expected_chan A ?nu n U (procs ?c) s d" if "s < P" "d < P" for s d
    using cnt(1) [OF that(1)] by (simp add: expected_chan_def queued_def mpi_start_def)
  have 3: "nrecv_right (procs ?c ! r) \<le> nsent (procs ?c ! right_proc r P)"
          "nrecv_left (procs ?c ! r) \<le> nsent (procs ?c ! left_proc r P)" if "r < P" for r
    using cnt [OF that] by simp_all
  show ?thesis
    using U 1 2 3 len by (simp add: run_inv_def)
qed

lemma gather_returned:
  fixes n :: nat
  assumes inv: "run_inv A nu n T U c" and fin: "all_returned c"
  shows "gather c = evolve A nu T U"
proof -
  let ?P = "length (procs c)"
  have U: "length (evolve A nu T U) = ?P * n"
    using run_inv_length [OF inv] by simp
  have "uk (procs c ! r) = slice n r (evolve A nu T U)" if "r < ?P" for r
  proof -
    have "pc (procs c ! r) = Returned"
      using fin that by (simp add: all_returned_def list_all_length)
    then show ?thesis
      using run_inv_local [OF inv that] by (simp add: local_inv_def)
  qed
  then have "map uk (procs c) = map (\<lambda>r. slice n r (evolve A nu T U)) [0..<?P]"
    by (intro nth_equalityI) simp_all
  then show ?thesis
    using concat_slices [OF U] by (simp add: gather_def)
qed

subsection \<open>Every run can be completed\<close>

lemma queued_nonempty_left:
  "cl \<Longrightarrow> a \<le> j \<Longrightarrow> j < n \<Longrightarrow> queued cl cr a b x y n \<noteq> []"
  by (auto simp: queued_def intro!: bexI [of _ j])

lemma queued_nonempty_right:
  "cr \<Longrightarrow> b \<le> j \<Longrightarrow> j < n \<Longrightarrow> queued cl cr a b x y n \<noteq> []"
  by (auto simp: queued_def intro!: bexI [of _ j])

lemma moves_done_le:
  assumes "local_inv A nu n T U r p"
  shows "moves_done p \<le> 4 * T + 1" and "moves_done p = 4 * T + 1 \<longleftrightarrow> pc p = Returned"
  using assms by (cases "pc p"; simp add: local_inv_def moves_done_def)+

lemma moves_done_nsent:
  assumes "local_inv A nu n T U r p" "4 * k + 1 \<le> moves_done p" "k < T"
  shows "k < nsent p"
  using assms by (cases "pc p"; simp add: local_inv_def moves_done_def nsent_def)

lemma moves_done_nrecv:
  assumes "local_inv A nu n T U r p" "4 * k + 3 \<le> moves_done p" "k < T"
  shows "k < nrecv_right p" and "k < nrecv_left p"
  using assms
  by (cases "pc p"; simp add: local_inv_def moves_done_def nrecv_right_def nrecv_left_def)+

lemma least_rank:
  fixes f :: "nat \<Rightarrow> nat"
  assumes "0 < P"
  shows "\<exists>r<P. \<forall>q<P. f r \<le> f q"
  using assms
proof (induction P)
  case 0
  then show ?case by simp
next
  case (Suc P)
  show ?case
  proof (cases "P = 0")
    case True
    then show ?thesis by simp
  next
    case False
    then obtain r where r: "r < P" "\<forall>q<P. f r \<le> f q" using Suc.IH by auto
    show ?thesis
    proof (cases "f r \<le> f P")
      case True
      then have "\<forall>q<Suc P. f r \<le> f q" using r(2) by (simp add: less_Suc_eq)
      then show ?thesis using r(1) by (intro exI [of _ r]) simp
    next
      case False
      then have "\<forall>q<Suc P. f P \<le> f q" using r(2) by (auto simp: less_Suc_eq intro: order_trans)
      then show ?thesis by (intro exI [of _ P]) simp
    qed
  qed
qed

lemma rank_step_progress:
  fixes n :: nat
  assumes inv: "run_inv A nu n T U c" and n: "2 \<le> n"
    and more: "\<not> all_returned c"
  shows "\<exists>r c'. rank_step A buffered c r = Some c'"
proof -
  let ?P = "length (procs c)"
  let ?ps = "procs c"
  have "0 < ?P" using more by (auto simp: all_returned_def)
  from least_rank [OF this, of "\<lambda>r. moves_done (?ps ! r)"]
  obtain r where r: "r < ?P" and least: "\<And>q. q < ?P \<Longrightarrow> moves_done (?ps ! r) \<le> moves_done (?ps ! q)"
    by blast
  let ?p = "?ps ! r"
  note loc = run_inv_local [OF inv r]
  note base = local_inv_base [OF loc]
  have L: "left_proc r ?P < ?P" and R: "right_proc r ?P < ?P"
    using r by (simp_all add: left_proc_less right_proc_less)
  have "\<exists>c'. rank_step A buffered c r = Some c'"
  proof (cases "pc ?p")
    case AtLoop
    then show ?thesis using r n base by (simp add: rank_step_def Let_def post_sends_def)
  next
    case AtRecvRight
    then have k: "step ?p < T" and md: "moves_done ?p = 4 * step ?p + 1"
      using loc by (simp_all add: local_inv_def moves_done_def)
    have "step ?p < nsent (?ps ! right_proc r ?P)"
      using moves_done_nsent [OF run_inv_local [OF inv R] _ k] least [OF R] md by simp
    then have "chan c (right_proc r ?P) r \<noteq> []"
      using run_inv_chan [OF inv R r] left_right_proc [OF r] counts_AtRecvRight [OF AtRecvRight]
        queued_nonempty_left [of True "step ?p" "step ?p" "nsent (?ps ! right_proc r ?P)"]
      by (simp add: expected_chan_def)
    then show ?thesis
      using r AtRecvRight by (cases "chan c (right_proc r ?P) r") (simp_all add: rank_step_def Let_def)
  next
    case AtRecvLeft
    then have k: "step ?p < T" and md: "moves_done ?p = 4 * step ?p + 2"
      using loc by (simp_all add: local_inv_def moves_done_def)
    have "4 * step ?p + 1 \<le> moves_done (?ps ! left_proc r ?P)"
      using least [OF L] md by simp
    then have "step ?p < nsent (?ps ! left_proc r ?P)"
      using moves_done_nsent [OF run_inv_local [OF inv L] _ k] by simp
    then have "chan c (left_proc r ?P) r \<noteq> []"
      using run_inv_chan [OF inv L r] right_left_proc [OF r] counts_AtRecvLeft [OF AtRecvLeft]
        queued_nonempty_right [of True "step ?p" "step ?p" "nsent (?ps ! left_proc r ?P)"]
      by (simp add: expected_chan_def)
    then show ?thesis
      using r AtRecvLeft by (cases "chan c (left_proc r ?P) r") (simp_all add: rank_step_def Let_def)
  next
    case AtWait
    then have k: "step ?p < T" and md: "moves_done ?p = 4 * step ?p + 3"
      using loc by (simp_all add: local_inv_def moves_done_def)
    have empty: "chan c r d = []" if d: "d < ?P" for d
    proof -
      have "4 * step ?p + 3 \<le> moves_done (?ps ! d)" using least [OF d] md by simp
      from moves_done_nrecv [OF run_inv_local [OF inv d] this k]
      have "Suc (step ?p) \<le> nrecv_right (?ps ! d)" "Suc (step ?p) \<le> nrecv_left (?ps ! d)"
        by simp_all
      then show ?thesis
        using run_inv_chan [OF inv r d] counts_AtWait [OF AtWait]
        by (simp add: expected_chan_def queued_before)
    qed
    show ?thesis
      using r AtWait empty [OF L] empty [OF R] by (simp add: rank_step_def Let_def)
  next
    case Returned
    then have "moves_done ?p = 4 * T + 1" using moves_done_le(2) [OF loc] by simp
    then have "pc (?ps ! q) = Returned" if "q < ?P" for q
      using least [OF that] moves_done_le [OF run_inv_local [OF inv that]] by simp
    then have "all_returned c" by (simp add: all_returned_def list_all_length)
    with more show ?thesis by simp
  next
    case Undefined
    then show ?thesis using loc by (simp add: local_inv_def)
  qed
  then show ?thesis by blast
qed

lemma sum_list_update_less:
  fixes f :: "'b \<Rightarrow> nat"
  assumes "r < length xs" "f y < f (xs ! r)"
  shows "sum_list (map f (xs[r := y])) < sum_list (map f xs)"
  using assms
proof (induction xs arbitrary: r)
  case Nil
  then show ?case by simp
next
  case (Cons x xs)
  then show ?case by (cases r) auto
qed

lemma rank_step_shape:
  fixes n :: nat
  assumes inv: "run_inv A nu n T U c" and n: "2 \<le> n"
    and mv: "rank_step A buffered c r = Some c'"
  shows "r < length (procs c) \<and>
         (\<exists>p'. procs c' = (procs c)[r := p'] \<and> moves_done p' = Suc (moves_done (procs c ! r)))"
proof -
  let ?p = "procs c ! r"
  have r: "r < length (procs c)"
    using mv by (auto simp: rank_step_def split: if_splits)
  note loc = run_inv_local [OF inv r]
  note base = local_inv_base [OF loc]
  have "\<exists>p'. procs c' = (procs c)[r := p'] \<and> moves_done p' = Suc (moves_done ?p)"
  proof (cases "pc ?p")
    case AtLoop
    show ?thesis
    proof (cases "step ?p < T")
      case True
      then have "procs c' = (procs c)[r := snd (post_sends A ?p)]"
        using mv r AtLoop n base by (auto simp: rank_step_def Let_def split: prod.splits)
      moreover have "moves_done (snd (post_sends A ?p)) = Suc (moves_done ?p)"
        using AtLoop by (simp add: moves_done_def post_sends_def)
      ultimately show ?thesis by blast
    next
      case False
      then have "step ?p = T" using loc AtLoop by (simp add: local_inv_def)
      then have "moves_done (finish ?p) = Suc (moves_done ?p)"
        using AtLoop by (simp add: moves_done_def finish_def)
      moreover have "procs c' = (procs c)[r := finish ?p]"
        using mv r AtLoop False base by (auto simp: rank_step_def Let_def)
      ultimately show ?thesis by blast
    qed
  next
    case AtRecvRight
    then obtain v where "procs c' = (procs c)[r := recv_right A v ?p]"
      using mv r by (cases "chan c (right_proc r (length (procs c))) r")
        (auto simp: rank_step_def Let_def)
    moreover have "moves_done (recv_right A v ?p) = Suc (moves_done ?p)" for v
      using AtRecvRight by (simp add: moves_done_def recv_right_def)
    ultimately show ?thesis by blast
  next
    case AtRecvLeft
    then obtain v where "procs c' = (procs c)[r := recv_left A v ?p]"
      using mv r by (cases "chan c (left_proc r (length (procs c))) r")
        (auto simp: rank_step_def Let_def)
    moreover have "moves_done (recv_left A v ?p) = Suc (moves_done ?p)" for v
      using AtRecvLeft by (simp add: moves_done_def recv_left_def)
    ultimately show ?thesis by blast
  next
    case AtWait
    then have "procs c' = (procs c)[r := wait_sends ?p]"
      using mv r by (auto simp: rank_step_def Let_def split: if_splits)
    moreover have "moves_done (wait_sends ?p) = Suc (moves_done ?p)"
      using AtWait by (simp add: moves_done_def wait_sends_def)
    ultimately show ?thesis by blast
  next
    case Returned
    then show ?thesis using mv r by (simp add: rank_step_def Let_def)
  next
    case Undefined
    then show ?thesis using mv r by (simp add: rank_step_def Let_def)
  qed
  with r show ?thesis by blast
qed

lemma rank_step_moves_left:
  fixes n :: nat
  assumes inv: "run_inv A nu n T U c" and n: "2 \<le> n"
    and mv: "rank_step A buffered c r = Some c'"
  shows "moves_left T c' < moves_left T c"
proof -
  from rank_step_shape [OF inv n mv] obtain p' where
    r: "r < length (procs c)" and c': "procs c' = (procs c)[r := p']"
    and md: "moves_done p' = Suc (moves_done (procs c ! r))"
    by blast
  have inv': "run_inv A nu n T U c'" by (rule rank_step_inv [OF inv n mv])
  have "local_inv A nu n T U r p'"
    using run_inv_local [OF inv', of r] r c' by simp
  then have "moves_done p' \<le> 4 * T + 1" by (rule moves_done_le(1))
  then have "4 * T + 1 - moves_done p' < 4 * T + 1 - moves_done (procs c ! r)"
    using md by simp
  then show ?thesis
    unfolding moves_left_def c' by (intro sum_list_update_less [OF r])
qed

lemma run_completes:
  fixes n :: nat
  assumes "run_inv A nu n T U c" and "2 \<le> n"
  shows "\<exists>sched c'. run A buffered sched c = Some c' \<and> all_returned c'"
  using assms
proof (induction "moves_left T c" arbitrary: c rule: less_induct)
  case less
  show ?case
  proof (cases "all_returned c")
    case True
    then have "run A buffered [] c = Some c \<and> all_returned c" by simp
    then show ?thesis by blast
  next
    case False
    from rank_step_progress [OF less.prems False, of buffered]
    obtain r c1 where mv: "rank_step A buffered c r = Some c1" by blast
    have "moves_left T c1 < moves_left T c"
      by (rule rank_step_moves_left [OF less.prems mv])
    from less.hyps [OF this rank_step_inv [OF less.prems mv] less.prems(2)]
    obtain sched c' where "run A buffered sched c1 = Some c'" "all_returned c'" by blast
    then have "run A buffered (r # sched) c = Some c' \<and> all_returned c'"
      using mv by simp
    then show ?thesis by blast
  qed
qed

subsection \<open>Runs with no time step\<close>

lemma zero_inv_start:
  assumes "\<forall>a \<in> set uks. n \<le> length a"
  shows "zero_inv n uks (mpi_start A g uks dx n dt 0)"
proof -
  have "n \<le> length (uks ! r)" if "r < length uks" for r
    using assms that by simp
  then have "\<not> length (uks ! r) < n" if "r < length uks" for r
    using that by (simp add: not_less)
  then show ?thesis
    using \<open>\<And>r. r < length uks \<Longrightarrow> n \<le> length (uks ! r)\<close>
    by (simp add: zero_inv_def mpi_start_def heat_parallel_enter_def array_copy_eq)
qed

lemma zero_inv_step:
  assumes inv: "zero_inv n uks c" and len: "\<forall>a \<in> set uks. n \<le> length a"
    and mv: "rank_step A buffered c r = Some c'"
  shows "zero_inv n uks c' \<and> moves_left 0 c' < moves_left 0 c"
proof -
  let ?p = "procs c ! r"
  have r: "r < length (procs c)"
    using mv by (auto simp: rank_step_def split: if_splits)
  then have r': "r < length uks" using inv by (simp add: zero_inv_def)
  have p: "uk ?p = uks ! r" "p_Nt ?p = 0" "p_Nx ?p = n" "step ?p = 0"
    "pc ?p = Returned \<or> pc ?p = AtLoop \<and> ukt ?p = take n (uks ! r)"
    using inv r' by (simp_all add: zero_inv_def)
  have "pc ?p \<noteq> Returned" using mv r by (auto simp: rank_step_def Let_def)
  with p(5) have at: "pc ?p = AtLoop" and ukt: "ukt ?p = take n (uks ! r)" by simp_all
  have c': "c' = c\<lparr>procs := (procs c)[r := finish ?p]\<rparr>"
    using mv r at p(2) by (simp add: rank_step_def Let_def)
  have n: "n \<le> length (uks ! r)" using len r' by simp
  have "array_copy (uk ?p) (ukt ?p) n = uks ! r"
    using n by (simp add: p(1) ukt array_copy_eq)
  then have fin: "uk (finish ?p) = uks ! r" "p_Nt (finish ?p) = 0" "p_Nx (finish ?p) = n"
    "step (finish ?p) = 0" "pc (finish ?p) = Returned"
    using p by (simp_all add: finish_def)
  have 1: "zero_inv n uks c'"
    using inv r fin unfolding c' by (auto simp: zero_inv_def nth_list_update)
  have "1 - moves_done (finish ?p) < 1 - moves_done ?p"
    using at p(4) fin(4,5) by (simp add: moves_done_def)
  then have 2: "moves_left 0 c' < moves_left 0 c"
    unfolding moves_left_def c' using sum_list_update_less [OF r, of "\<lambda>p. 4 * 0 + 1 - moves_done p" "finish ?p"]
    by simp
  from 1 2 show ?thesis ..
qed

lemma zero_inv_run:
  assumes "zero_inv n uks c" "\<forall>a \<in> set uks. n \<le> length a" "run A buffered sched c = Some c'"
  shows "zero_inv n uks c'"
  using assms
proof (induction sched arbitrary: c)
  case Nil
  then show ?case by simp
next
  case (Cons r rs)
  then obtain c1 where c1: "rank_step A buffered c r = Some c1" "run A buffered rs c1 = Some c'"
    by (auto split: option.splits)
  then show ?case
    using Cons.IH [of c1] zero_inv_step [OF Cons.prems(1,2) c1(1)] Cons.prems(2) by simp
qed

lemma zero_inv_progress:
  assumes inv: "zero_inv n uks c" and more: "\<not> all_returned c"
  shows "\<exists>r c'. rank_step A buffered c r = Some c'"
proof -
  from more obtain r where r: "r < length (procs c)" "pc (procs c ! r) \<noteq> Returned"
    by (auto simp: all_returned_def list_all_length)
  then have "pc (procs c ! r) = AtLoop" "p_Nt (procs c ! r) = 0"
    using inv by (auto simp: zero_inv_def)
  then have "\<exists>c'. rank_step A buffered c r = Some c'"
    using r(1) by (simp add: rank_step_def Let_def)
  then show ?thesis by blast
qed

lemma zero_inv_completes:
  assumes "zero_inv n uks c" and "\<forall>a \<in> set uks. n \<le> length a"
  shows "\<exists>sched c'. run A buffered sched c = Some c' \<and> all_returned c'"
  using assms
proof (induction "moves_left 0 c" arbitrary: c rule: less_induct)
  case less
  show ?case
  proof (cases "all_returned c")
    case True
    then have "run A buffered [] c = Some c \<and> all_returned c" by simp
    then show ?thesis by blast
  next
    case False
    from zero_inv_progress [OF less.prems(1) False, of A buffered]
    obtain r c1 where mv: "rank_step A buffered c r = Some c1" by blast
    note nxt = zero_inv_step [OF less.prems mv]
    from less.hyps [OF conjunct2 [OF nxt] conjunct1 [OF nxt] less.prems(2)]
    obtain sched c' where "run A buffered sched c1 = Some c'" "all_returned c'" by blast
    then have "run A buffered (r # sched) c = Some c' \<and> all_returned c'"
      using mv by simp
    then show ?thesis by blast
  qed
qed

lemma slices_length_ok:
  fixes n :: nat
  assumes "length U = P * n"
  shows "\<forall>a \<in> set (slices P n U). n \<le> length a"
  using slice_length [OF assms] by (auto simp: slices_def)

lemma gather_zero:
  fixes n :: nat
  assumes "zero_inv n (slices P n U) c" "length U = P * n"
  shows "gather c = U"
proof -
  have "map uk (procs c) = slices P n U"
    using assms(1) by (intro nth_equalityI) (simp_all add: zero_inv_def)
  then show ?thesis
    using concat_slices [OF assms(2)] by (simp add: gather_def slices_def)
qed

lemma small_slice_undefined:
  assumes "Nx < 2" "0 < Nt" "r < length uks" "Nx \<le> length (uks ! r)"
  shows "\<exists>c'. rank_step A buffered (mpi_start A g uks dx Nx dt Nt) r = Some c'
              \<and> pc (procs c' ! r) = Undefined"
  using assms
  by (simp add: rank_step_def Let_def mpi_start_def heat_parallel_enter_def not_less)

subsection \<open>Slices of fewer than two cells\<close>

lemma small_slice_step:
  assumes inv: "procs c \<noteq> [] \<and>
      (\<forall>p \<in> set (procs c). p_Nx p < 2 \<and> step p < p_Nt p \<and> (pc p = AtLoop \<or> pc p = Undefined))"
    and mv: "rank_step A buffered c r = Some c'"
  shows "procs c' \<noteq> [] \<and>
      (\<forall>p \<in> set (procs c'). p_Nx p < 2 \<and> step p < p_Nt p \<and> (pc p = AtLoop \<or> pc p = Undefined))"
proof -
  let ?p = "procs c ! r"
  let ?q = "?p\<lparr>pc := Undefined\<rparr>"
  have r: "r < length (procs c)"
    using mv by (auto simp: rank_step_def split: if_splits)
  then have "?p \<in> set (procs c)" by simp
  with inv have p: "p_Nx ?p < 2" "step ?p < p_Nt ?p" "pc ?p = AtLoop \<or> pc ?p = Undefined"
    by blast+
  have "pc ?p \<noteq> Undefined" using mv r by (auto simp: rank_step_def Let_def)
  with p(3) have at: "pc ?p = AtLoop" by simp
  have "rank_step A buffered c r = Some (c\<lparr>procs := (procs c)[r := ?q]\<rparr>)"
    using r at p(1,2) by (simp add: rank_step_def Let_def)
  with mv have c': "procs c' = (procs c)[r := ?q]" by auto
  have sub: "set (procs c') \<subseteq> insert ?q (set (procs c))"
    unfolding c' by (rule set_update_subset_insert)
  have ne: "procs c' \<noteq> []" using inv by (simp add: c')
  have q: "p_Nx ?q < 2 \<and> step ?q < p_Nt ?q \<and> (pc ?q = AtLoop \<or> pc ?q = Undefined)"
    using p by simp
  have "p_Nx x < 2 \<and> step x < p_Nt x \<and> (pc x = AtLoop \<or> pc x = Undefined)"
    if "x \<in> set (procs c')" for x
  proof -
    from that sub have "x = ?q \<or> x \<in> set (procs c)" by blast
    then show ?thesis using q inv by blast
  qed
  with ne show ?thesis by blast
qed

lemma small_slice_run:
  assumes "procs c \<noteq> [] \<and>
      (\<forall>p \<in> set (procs c). p_Nx p < 2 \<and> step p < p_Nt p \<and> (pc p = AtLoop \<or> pc p = Undefined))"
    and "run A buffered sched c = Some c'"
  shows "procs c' \<noteq> [] \<and>
      (\<forall>p \<in> set (procs c'). p_Nx p < 2 \<and> step p < p_Nt p \<and> (pc p = AtLoop \<or> pc p = Undefined))"
  using assms
proof (induction sched arbitrary: c)
  case Nil
  then show ?case by simp
next
  case (Cons r rs)
  from Cons.prems(2) obtain c1 where
    c1: "rank_step A buffered c r = Some c1" "run A buffered rs c1 = Some c'"
    by (cases "rank_step A buffered c r") simp_all
  show ?case
    by (rule Cons.IH [OF small_slice_step [OF Cons.prems(1) c1(1)] c1(2)])
qed

lemma small_slice_start:
  assumes "Nx < 2" "0 < Nt" "uks \<noteq> []" "\<forall>a \<in> set uks. Nx \<le> length a"
  shows "procs (mpi_start A g uks dx Nx dt Nt) \<noteq> [] \<and>
      (\<forall>p \<in> set (procs (mpi_start A g uks dx Nx dt Nt)).
          p_Nx p < 2 \<and> step p < p_Nt p \<and> (pc p = AtLoop \<or> pc p = Undefined))"
proof -
  have ne: "procs (mpi_start A g uks dx Nx dt Nt) \<noteq> []"
    using assms(3) by (simp add: mpi_start_def)
  have "p_Nx p < 2 \<and> step p < p_Nt p \<and> (pc p = AtLoop \<or> pc p = Undefined)"
    if "p \<in> set (procs (mpi_start A g uks dx Nx dt Nt))" for p
  proof -
    from that obtain r where "r < length uks"
      and p: "p = heat_parallel_enter A (g r) (uks ! r) dx Nx dt Nt"
      by (auto simp: mpi_start_def)
    then have "\<not> length (uks ! r) < Nx" using assms(4) by (simp add: not_less)
    then show ?thesis using assms(1,2) by (simp add: p heat_parallel_enter_def)
  qed
  with ne show ?thesis by blast
qed

lemma small_slice_never_returns:
  assumes "Nx < 2" "0 < Nt" "uks \<noteq> []" "\<forall>a \<in> set uks. Nx \<le> length a"
    and "run A buffered sched (mpi_start A g uks dx Nx dt Nt) = Some c"
  shows "\<not> all_returned c"
proof -
  from small_slice_run [OF small_slice_start [OF assms(1-4)] assms(5)]
  have ne: "procs c \<noteq> []" and all: "\<forall>p \<in> set (procs c). pc p = AtLoop \<or> pc p = Undefined"
    by blast+
  from ne obtain p where p: "p \<in> set (procs c)" by (cases "procs c") auto
  with all have "pc p \<noteq> Returned" by auto
  with p show ?thesis by (auto simp: all_returned_def list_all_iff)
qed

section \<open>Evaluating the arithmetic of double\<close>

lemma bitlength_0 [simp]: "bitlength 0 = 0"
  by (simp add: bitlength.simps)

lemma bitlength_1 [simp]: "bitlength 1 = 1"
  by (simp add: bitlength.simps)

lemma bitlength_numeral [simp]:
  "bitlength (numeral k) = Suc (bitlength (numeral k div 2))"
  by (subst bitlength.simps) simp

lemmas dbl_eval =
  dbl_def round_even_def round_at_def round_cut_def pack_def add_exact_def dsub_def
  double_arith_def stencil_def

lemma nu_quarter:
  "fdiv double_arith (dbl 1 (- 2)) (fmul double_arith (dbl 1 0) (dbl 1 0)) = dbl 1 (- 2)"
  by (simp add: dbl_eval)

lemma hot_cell_step1:
  "periodic_step double_arith (dbl 1 (- 2)) [dbl 0 0, dbl 0 0, dbl 1 0, dbl 0 0, dbl 0 0]
     = [dbl 0 0, dbl 1 (- 2), dbl 1 (- 1), dbl 1 (- 2), dbl 0 0]"
  by (simp add: periodic_step_def upt_rec [of _ "numeral _"] upt_rec [of _ "Suc _"] dbl_eval)

lemma hot_cell_step2:
  "periodic_step double_arith (dbl 1 (- 2)) [dbl 0 0, dbl 1 (- 2), dbl 1 (- 1), dbl 1 (- 2), dbl 0 0]
     = [dbl 1 (- 4), dbl 1 (- 2), dbl 3 (- 3), dbl 1 (- 2), dbl 1 (- 4)]"
  by (simp add: periodic_step_def upt_rec [of _ "numeral _"] upt_rec [of _ "Suc _"] dbl_eval)

subsection \<open>Exact results of the arithmetic of double\<close>

lemma bitlength_pos: "0 < m \<Longrightarrow> bitlength m = Suc (bitlength (m div 2))"
  by (subst bitlength.simps) simp

lemma bitlength_nonpos: "m \<le> 0 \<Longrightarrow> bitlength m = 0"
  by (subst bitlength.simps) simp

lemma bitlength_less: "0 \<le> m \<Longrightarrow> m < 2 ^ k \<Longrightarrow> bitlength m \<le> k"
proof (induction k arbitrary: m)
  case 0
  then have "m = 0" by simp
  then show ?case by (simp add: bitlength_nonpos)
next
  case (Suc k)
  show ?case
  proof (cases "m = 0")
    case True
    then show ?thesis by (simp add: bitlength_nonpos)
  next
    case False
    then have pos: "0 < m" using Suc.prems by simp
    have "m div 2 < 2 ^ k" using Suc.prems by simp
    moreover have "0 \<le> m div 2" using Suc.prems by simp
    ultimately have "bitlength (m div 2) \<le> k" by (rule Suc.IH [rotated])
    then show ?thesis by (simp add: bitlength_pos [OF pos])
  qed
qed

lemma bitlength_greater: "2 ^ k \<le> m \<Longrightarrow> k < bitlength m"
proof (induction k arbitrary: m)
  case 0
  then have "0 < m" by simp
  then show ?case by (simp add: bitlength_pos)
next
  case (Suc k)
  then have pos: "0 < m"
    by (smt (verit) zero_less_power)
  have "2 ^ k \<le> m div 2" using Suc.prems by simp
  then have "k < bitlength (m div 2)" by (rule Suc.IH)
  then show ?case by (simp add: bitlength_pos [OF pos])
qed

lemma bitlength_normal: "2 ^ 52 \<le> m \<Longrightarrow> m < 2 ^ 53 \<Longrightarrow> bitlength m = 53"
proof -
  assume a: "2 ^ 52 \<le> m" "m < 2 ^ 53"
  then have "0 \<le> m" by simp
  from bitlength_less [OF this a(2)] bitlength_greater [OF a(1)] show ?thesis by simp
qed

lemma bitlength_double: "0 < m \<Longrightarrow> bitlength (2 * m) = Suc (bitlength m)"
  by (subst bitlength_pos) simp_all

lemma bitlength_shift: "0 < m \<Longrightarrow> bitlength (2 ^ k * m) = k + bitlength m"
proof (induction k)
  case 0
  then show ?case by simp
next
  case (Suc k)
  have pos: "0 < 2 ^ k * m" using Suc.prems by simp
  have "bitlength (2 ^ Suc k * m) = bitlength (2 * (2 ^ k * m))"
    by (simp add: mult.assoc)
  also have "\<dots> = Suc (bitlength (2 ^ k * m))" by (rule bitlength_double [OF pos])
  also have "\<dots> = Suc k + bitlength m" using Suc by simp
  finally show ?case .
qed

lemma round_even_double:
  assumes "0 < m" "is_double (Finite s m e)"
  shows "round_even s m e = Finite s m e"
proof (cases "2 ^ 52 \<le> m")
  case True
  then have "bitlength m = 53" using assms by (intro bitlength_normal) simp_all
  then show ?thesis using assms by (simp add: round_even_def round_at_def)
next
  case False
  then have "bitlength m \<le> 52" using assms by (intro bitlength_less) simp_all
  moreover have "e = - 1074" using False assms by simp
  ultimately show ?thesis by (simp add: round_even_def round_at_def max_def)
qed

lemma round_even_twice:
  assumes "0 < m" "is_double (Finite s m e)" "e < 971"
  shows "round_even s (2 ^ 52 * m) (e - 51) =
           (if 2 ^ 52 \<le> m then Finite s m (e + 1) else Finite s (2 * m) (- 1074))"
proof (cases "2 ^ 52 \<le> m")
  case True
  then have bl: "bitlength m = 53" using assms by (intro bitlength_normal) simp_all
  have "round_even s (2 ^ 52 * m) (e - 51) = round_at s (2 ^ 52 * m) (e - 51) (e + 1)"
    using assms bitlength_shift [OF assms(1), of 52] bl
    by (simp add: round_even_def max_def add.commute)
  also have "\<dots> = round_cut s m 0 (2 ^ 51) (e + 1)"
    by (simp add: round_at_def)
  also have "\<dots> = Finite s m (e + 1)"
    using assms by (simp add: round_cut_def pack_def)
  finally show ?thesis using True by simp
next
  case False
  then have bl: "bitlength m \<le> 52" using assms by (intro bitlength_less) simp_all
  have e: "e = - 1074" using False assms by simp
  have "round_even s (2 ^ 52 * m) (e - 51) = round_at s (2 ^ 52 * m) (- 1125) (- 1074)"
    using bl bitlength_shift [OF assms(1), of 52] by (simp add: round_even_def e max_def)
  also have "\<dots> = round_cut s (2 ^ 52 * m div 2 ^ 51) (2 ^ 52 * m mod 2 ^ 51) (2 ^ 50) (- 1074)"
    by (simp add: round_at_def)
  also have "(2 ^ 52 * m div 2 ^ 51) = 2 * m" by simp
  also have "(2 ^ 52 * m mod 2 ^ 51) = 0" by simp
  also have "round_cut s (2 * m) 0 (2 ^ 50) (- 1074) = Finite s (2 * m) (- 1074)"
    using False by (simp add: round_cut_def pack_def)
  finally show ?thesis using False by simp
qed

subsection \<open>The stencil on a constant field\<close>

lemma dmul_two:
  assumes "0 < m" "is_double (Finite s m e)" "e < 971"
  shows "dmul (Finite False (2 ^ 52) (- 51)) (Finite s m e) =
           (if 2 ^ 52 \<le> m then Finite s m (e + 1) else Finite s (2 * m) (- 1074))"
proof -
  have "dmul (Finite False (2 ^ 52) (- 51)) (Finite s m e) = round_even s (2 ^ 52 * m) (e - 51)"
    using assms(1) by simp
  then show ?thesis using round_even_twice [OF assms] by simp
qed

lemma dsub_twice:
  assumes "0 < m" "is_double (Finite s m e)" "e < 971"
  shows "dsub (Finite s m e) (dmul (Finite False (2 ^ 52) (- 51)) (Finite s m e)) =
           Finite (\<not> s) m e"
proof -
  have neg: "is_double (Finite (\<not> s) m e)" using assms(2) by simp
  have r: "round_even (\<not> s) m e = Finite (\<not> s) m e"
    by (rule round_even_double [OF assms(1) neg])
  show ?thesis
  proof (cases "2 ^ 52 \<le> m")
    case True
    have "dsub (Finite s m e) (Finite s m (e + 1)) =
            add_exact ((if s then - m else m) + (if s then m else - m) * 2) e"
      using assms(1) by (simp add: dsub_def min_def)
    also have "\<dots> = round_even (\<not> s) m e"
      using assms(1) by (cases s) (simp_all add: add_exact_def)
    finally show ?thesis using True r dmul_two [OF assms] by simp
  next
    case False
    then have e: "e = - 1074" using assms by simp
    have "dsub (Finite s m e) (Finite s (2 * m) (- 1074)) =
            add_exact ((if s then - m else m) + (if s then 2 * m else - (2 * m))) e"
      using assms(1) by (simp add: dsub_def e)
    also have "\<dots> = round_even (\<not> s) m e"
      using assms(1) by (cases s) (simp_all add: add_exact_def)
    finally show ?thesis using False r dmul_two [OF assms] by simp
  qed
qed

lemma dadd_cancel:
  assumes "0 < m"
  shows "dadd (Finite (\<not> s) m e) (Finite s m e) = Finite False 0 (- 1074)"
  using assms by (cases s) (simp_all add: add_exact_def)

lemma stencil_constant:
  assumes c: "is_double (Finite s m e)" "e < 971"
  shows "stencil double_arith (Finite t k f) (Finite s m e) (Finite s m e) (Finite s m e) =
           (if m = 0 then Finite (s \<and> t) 0 (- 1074) else Finite s m e)"
proof (cases "m = 0")
  case True
  then show ?thesis
    by (simp add: stencil_def double_arith_def dsub_def)
next
  case False
  then have pos: "0 < m" using c by simp
  let ?c = "Finite s m e"
  have "dadd (dsub ?c (dmul (Finite False (2 ^ 52) (- 51)) ?c)) ?c = Finite False 0 (- 1074)"
    using dsub_twice [OF pos c] dadd_cancel [OF pos] by simp
  then have "stencil double_arith (Finite t k f) ?c ?c ?c
               = dadd ?c (dmul (Finite t k f) (Finite False 0 (- 1074)))"
    by (simp add: stencil_def double_arith_def)
  also have "\<dots> = ?c" using pos by simp
  finally show ?thesis using False by simp
qed

lemma periodic_step_replicate:
  "periodic_step A nu (replicate N c) = replicate N (stencil A nu c c c)"
proof (rule nth_equalityI)
  show "length (periodic_step A nu (replicate N c)) = length (replicate N (stencil A nu c c c))"
    by simp
next
  fix i assume "i < length (periodic_step A nu (replicate N c))"
  then have i: "i < N" by simp
  then have "(if i = 0 then N - 1 else i - 1) < N" "(if i = N - 1 then 0 else i + 1) < N"
    by auto
  then show "periodic_step A nu (replicate N c) ! i = replicate N (stencil A nu c c c) ! i"
    using i by (simp add: periodic_step_nth)
qed

lemma evolve_replicate:
  assumes "stencil A nu c c c = c"
  shows "evolve A nu n (replicate N c) = replicate N c"
  by (induction n) (simp_all add: evolve_Suc periodic_step_replicate assms)

lemma evolve_constant_double:
  assumes c: "is_double (Finite s m e)" "e < 971"
  shows "\<exists>c'. evolve double_arith (Finite t k f) n (replicate N (Finite s m e)) = replicate N c'
              \<and> deq c' (Finite s m e) \<and> (Finite s m e \<noteq> minus_zero \<longrightarrow> c' = Finite s m e)"
proof (cases "m = 0 \<and> s \<and> \<not> t")
  case False
  then have "stencil double_arith (Finite t k f) (Finite s m e) (Finite s m e) (Finite s m e)
               = Finite s m e"
    using stencil_constant [OF c, of t k f] c(1) by auto
  then have "evolve double_arith (Finite t k f) n (replicate N (Finite s m e))
               = replicate N (Finite s m e)"
    by (rule evolve_replicate)
  moreover have "deq (Finite s m e) (Finite s m e)" by simp
  ultimately show ?thesis by blast
next
  case True
  then have e: "e = - 1074" using c(1) by simp
  have zero: "is_double (Finite False 0 (- 1074))" "is_double (Finite True 0 (- 1074))" by simp_all
  have fixed: "stencil double_arith (Finite t k f) plus_zero plus_zero plus_zero = plus_zero"
    using stencil_constant [OF zero(1), of t k f] by (simp add: plus_zero_def)
  have first: "stencil double_arith (Finite t k f) minus_zero minus_zero minus_zero = plus_zero"
    using stencil_constant [OF zero(2), of t k f] True by (simp add: plus_zero_def minus_zero_def)
  have cm: "Finite s m e = minus_zero" using True e by (simp add: minus_zero_def)
  show ?thesis
  proof (cases n)
    case 0
    then have "evolve double_arith (Finite t k f) n (replicate N (Finite s m e))
                 = replicate N (Finite s m e)" by simp
    moreover have "deq (Finite s m e) (Finite s m e)" by simp
    ultimately show ?thesis by blast
  next
    case (Suc j)
    have "evolve double_arith (Finite t k f) n (replicate N minus_zero)
            = evolve double_arith (Finite t k f) j (replicate N plus_zero)"
      by (simp add: Suc evolve.simps periodic_step_replicate first)
    also have "\<dots> = replicate N plus_zero" by (rule evolve_replicate [OF fixed])
    finally have "evolve double_arith (Finite t k f) n (replicate N (Finite s m e))
                    = replicate N plus_zero"
      by (simp add: cm)
    moreover have "deq plus_zero (Finite s m e)" using True by (simp add: plus_zero_def)
    ultimately show ?thesis using cm by blast
  qed
qed

lemma overflow_step:
  "periodic_step double_arith (dbl 1 (- 2)) [dbl_max, dbl_max] = [Infinity True, Infinity True]"
  by (simp add: periodic_step_def upt_rec [of _ "numeral _"] upt_rec [of _ "Suc _"] dbl_eval
      dbl_max_def)

lemma tiny_dx_nu:
  "fdiv double_arith (dbl 1 (- 2)) (fmul double_arith (dbl 1 (- 600)) (dbl 1 (- 600)))
     = Infinity False"
  by (simp add: dbl_eval)

lemma tiny_dx_step:
  "periodic_step double_arith (Infinity False) [dbl 1 0, dbl 1 0] = [NaN, NaN]"
  by (simp add: periodic_step_def upt_rec [of _ "numeral _"] upt_rec [of _ "Suc _"] dbl_eval)

lemma one_cell_step:
  "periodic_step double_arith (dbl 1 (- 2)) [dbl 1 0, dbl 2 0] = [dbl 3 (- 1), dbl 3 (- 1)]"
  by (simp add: periodic_step_def upt_rec [of _ "numeral _"] upt_rec [of _ "Suc _"] dbl_eval)

lemma one_cell_serial:
  "heat_serial double_arith nan_block [dbl 1 0, dbl 2 0] (dbl 1 0) (2 * 1) (dbl 1 (- 2)) 1
     = Inr [dbl 3 (- 1), dbl 3 (- 1)]"
proof -
  have "(2::nat) \<le> 2 * 1" "(2::nat) * 1 \<le> length [dbl 1 0, dbl 2 0]" by simp_all
  from heat_serial_evolve [OF this, of double_arith nan_block "dbl 1 0" "dbl 1 (- 2)" 1]
  show ?thesis by (simp add: nu_quarter evolve.simps one_cell_step)
qed

lemma one_cell_parallel:
  "map_option pcs (run double_arith False [0, 1]
      (mpi_start double_arith nan_blocks (slices 2 1 [dbl 1 0, dbl 2 0]) (dbl 1 0) 1 (dbl 1 (- 2)) 1))
     = Some [Undefined, Undefined]"
  by (simp add: pcs_def rank_step_def Let_def heat_parallel_enter_def mpi_start_def slices_def
      slice_def malloc_def array_copy_def upt_rec [of _ "numeral _"] upt_rec [of _ "Suc _"])

section \<open>The claims about the serial kernel\<close>

text \<open>
  C2.  One pass of the body of the time loop of \<open>heat_serial\<close>, on blocks of
  \<open>Nx \<ge> 2\<close> cells: it takes the pair (\<open>current\<close>, \<open>scratch\<close>) to (\<open>nxt\<close>, \<open>old\<close>)
  where every interior cell \<open>i\<close> in \<open>[1, Nx-2]\<close> of \<open>nxt\<close> is
  \<open>current[i] + nu*(current[i-1] - 2*current[i] + current[i+1])\<close>, cell 0 is
  \<open>current[0] + nu*(current[Nx-1] - 2*current[0] + current[1])\<close> and cell \<open>Nx-1\<close> is
  \<open>current[Nx-1] + nu*(current[Nx-2] - 2*current[Nx-1] + current[0])\<close>.  The step
  reads only \<open>current\<close>: what the written block held before does not matter.  It
  writes only the other block: \<open>current\<close> is handed on unchanged as the next scratch
  block.  With \<open>nu = dt/dx^2\<close> a call of \<open>heat_serial\<close> with \<open>Nt = 1\<close> returns
  \<open>nxt\<close>.
\<close>

theorem serial_step_stencil:
  fixes Nx :: nat and nu :: 'a
  assumes "2 \<le> Nx" and "length current = Nx" and "length scratch = Nx"
    and "serial_iter A nu Nx (current, scratch) = (nxt, old)"
  shows "length nxt = Nx
    \<and> (\<forall>i. 1 \<le> i \<and> i \<le> Nx - 2 \<longrightarrow>
          nxt ! i = fadd A (current ! i) (fmul A nu
                      (fadd A (fsub A (current ! (i - 1)) (fmul A (ftwo A) (current ! i)))
                              (current ! (i + 1)))))
    \<and> nxt ! 0 = fadd A (current ! 0) (fmul A nu
                      (fadd A (fsub A (current ! (Nx - 1)) (fmul A (ftwo A) (current ! 0)))
                              (current ! 1)))
    \<and> nxt ! (Nx - 1) = fadd A (current ! (Nx - 1)) (fmul A nu
                      (fadd A (fsub A (current ! (Nx - 2)) (fmul A (ftwo A) (current ! (Nx - 1))))
                              (current ! 0)))
    \<and> old = current
    \<and> (\<forall>other. length other = Nx \<longrightarrow> fst (serial_iter A nu Nx (current, other)) = nxt)
    \<and> (nu = fdiv A dt (fmul A dx dx) \<longrightarrow> heat_serial A g current dx Nx dt 1 = Inr nxt)"
proof -
  have nxt: "nxt = euler_step A nu Nx current scratch"
    using assms(4) by (auto simp: serial_iter_def)
  have len: "length nxt = Nx"
    using assms(3) by (simp add: nxt)
  have inner: "nxt ! i = stencil A nu (current ! (i - 1)) (current ! i) (current ! (i + 1))"
    if "1 \<le> i \<and> i \<le> Nx - 2" for i
  proof -
    from that assms(1) have "i < Nx" "i \<noteq> 0" "i \<noteq> Nx - 1" by linarith+
    with assms(1,3) show ?thesis by (simp add: nxt euler_step_nth)
  qed
  have left: "nxt ! 0 = stencil A nu (current ! (Nx - 1)) (current ! 0) (current ! 1)"
    using assms(1,3) by (simp add: nxt euler_step_nth)
  have right: "nxt ! (Nx - 1) = stencil A nu (current ! (Nx - 2)) (current ! (Nx - 1)) (current ! 0)"
    using assms(1,3) by (simp add: nxt euler_step_nth numeral_2_eq_2)
  have old: "old = current"
    using assms(4) by (auto simp: serial_iter_def)
  have indep: "fst (serial_iter A nu Nx (current, other)) = nxt" if "length other = Nx" for other
    using that assms(1,3) by (simp add: nxt serial_iter_def euler_step_scratch [of Nx other scratch])
  have call: "heat_serial A g current dx Nx dt 1 = Inr nxt" if "nu = fdiv A dt (fmul A dx dx)"
    using that assms(1-3) heat_serial_evolve [of Nx current A g dx dt 1]
    by (simp add: nxt euler_step_periodic evolve.simps)
  from len inner left right old indep call show ?thesis
    unfolding stencil_def by blast
qed

theorem serial_step_stencil_witness:
  "(2::nat) \<le> 5
   \<and> length [dbl 0 0, dbl 0 0, dbl 1 0, dbl 0 0, dbl 0 0] = 5
   \<and> length (replicate 5 NaN) = 5
   \<and> serial_iter double_arith (dbl 1 (- 2)) 5
        ([dbl 0 0, dbl 0 0, dbl 1 0, dbl 0 0, dbl 0 0], replicate 5 NaN)
      = ([dbl 0 0, dbl 1 (- 2), dbl 1 (- 1), dbl 1 (- 2), dbl 0 0],
         [dbl 0 0, dbl 0 0, dbl 1 0, dbl 0 0, dbl 0 0])
   \<and> [dbl 0 0, dbl 1 (- 2), dbl 1 (- 1), dbl 1 (- 2), dbl 0 0] ! 0
       = fadd double_arith (dbl 0 0) (fmul double_arith (dbl 1 (- 2))
           (fadd double_arith (fsub double_arith (dbl 0 0) (fmul double_arith (ftwo double_arith) (dbl 0 0)))
              (dbl 0 0)))
   \<and> fst (serial_iter double_arith (dbl 1 (- 2)) 5
        ([dbl 0 0, dbl 0 0, dbl 1 0, dbl 0 0, dbl 0 0], replicate 5 (dbl 1 0)))
       = [dbl 0 0, dbl 1 (- 2), dbl 1 (- 1), dbl 1 (- 2), dbl 0 0]
   \<and> heat_serial double_arith (\<lambda>i. NaN) [dbl 0 0, dbl 0 0, dbl 1 0, dbl 0 0, dbl 0 0]
         (dbl 1 0) 5 (dbl 1 (- 2)) 1
       = Inr [dbl 0 0, dbl 1 (- 2), dbl 1 (- 1), dbl 1 (- 2), dbl 0 0]"
proof -
  let ?cur = "[dbl 0 0, dbl 0 0, dbl 1 0, dbl 0 0, dbl 0 0]"
  let ?nxt = "[dbl 0 0, dbl 1 (- 2), dbl 1 (- 1), dbl 1 (- 2), dbl 0 0]"
  have h1: "(2::nat) \<le> 5" by simp
  have h2: "length ?cur = 5" by simp
  have h3: "length (replicate 5 NaN :: double list) = 5" by simp
  have h4: "serial_iter double_arith (dbl 1 (- 2)) 5 (?cur, replicate 5 NaN) = (?nxt, ?cur)"
    by (simp add: serial_iter_def euler_step_periodic hot_cell_step1)
  have nu: "dbl 1 (- 2) = fdiv double_arith (dbl 1 (- 2)) (fmul double_arith (dbl 1 0) (dbl 1 0))"
    by (simp add: nu_quarter)
  have h5: "length (replicate 5 (dbl 1 0)) = 5" by simp
  note inst = serial_step_stencil [OF h1 h2 h3 h4, of "dbl 1 (- 2)" "dbl 1 0" "\<lambda>i. NaN"]
  from inst have a: "?nxt ! 0 = fadd double_arith (?cur ! 0) (fmul double_arith (dbl 1 (- 2))
           (fadd double_arith (fsub double_arith (?cur ! (5 - 1)) (fmul double_arith (ftwo double_arith) (?cur ! 0)))
              (?cur ! 1)))"
    by blast
  from inst h5 have b: "fst (serial_iter double_arith (dbl 1 (- 2)) 5 (?cur, replicate 5 (dbl 1 0))) = ?nxt"
    by blast
  from inst nu have c: "heat_serial double_arith (\<lambda>i. NaN) ?cur (dbl 1 0) 5 (dbl 1 (- 2)) 1 = Inr ?nxt"
    by blast
  from a have a': "?nxt ! 0 = fadd double_arith (dbl 0 0) (fmul double_arith (dbl 1 (- 2))
           (fadd double_arith (fsub double_arith (dbl 0 0) (fmul double_arith (ftwo double_arith) (dbl 0 0)))
              (dbl 0 0)))"
    by simp
  from h1 h2 h3 h4 a' b c show ?thesis by blast
qed

text \<open>
  C5.  With \<open>dx = 1\<close> and \<open>dt = 0.25\<close> the coefficient \<open>nu\<close> is \<open>0.25\<close>, and on the five
  cells \<open>[0, 0, 1, 0, 0]\<close> \<open>heat_serial\<close> returns \<open>[0, 0.25, 0.5, 0.25, 0]\<close> for
  \<open>Nt = 1\<close> and \<open>[0.0625, 0.25, 0.375, 0.25, 0.0625]\<close> for \<open>Nt = 2\<close>, in the arithmetic
  of double and whatever the allocated blocks held.
\<close>

theorem hot_cell_scenarios:
  "fdiv double_arith (dbl 1 (- 2)) (fmul double_arith (dbl 1 0) (dbl 1 0)) = dbl 1 (- 2)
   \<and> heat_serial double_arith g [dbl 0 0, dbl 0 0, dbl 1 0, dbl 0 0, dbl 0 0]
        (dbl 1 0) 5 (dbl 1 (- 2)) 1
     = Inr [dbl 0 0, dbl 1 (- 2), dbl 1 (- 1), dbl 1 (- 2), dbl 0 0]
   \<and> heat_serial double_arith g [dbl 0 0, dbl 0 0, dbl 1 0, dbl 0 0, dbl 0 0]
        (dbl 1 0) 5 (dbl 1 (- 2)) 2
     = Inr [dbl 1 (- 4), dbl 1 (- 2), dbl 3 (- 3), dbl 1 (- 2), dbl 1 (- 4)]"
  by (simp add: heat_serial_evolve nu_quarter hot_cell_step1 hot_cell_step2 numeral_2_eq_2
      evolve.simps)

text \<open>
  C4.  In the arithmetic of double the constant field is not kept for every \<open>c\<close>:
  with \<open>c\<close> the largest finite double the product \<open>2*c\<close> overflows and one step
  turns every cell into minus infinity, and with \<open>dx = 2^-600\<close> the square \<open>dx*dx\<close>
  underflows to zero, \<open>nu\<close> is infinite and one step turns the cells \<open>1.0\<close> into NaN.
\<close>

theorem constant_steady_state_counterexample:
  "heat_serial double_arith nan_block [dbl_max, dbl_max] (dbl 1 0) 2 (dbl 1 (- 2)) 1
     = Inr [Infinity True, Infinity True]
   \<and> deq (Infinity True) dbl_max = False
   \<and> heat_serial double_arith nan_block [dbl 1 0, dbl 1 0] (dbl 1 (- 600)) 2 (dbl 1 (- 2)) 1
     = Inr [NaN, NaN]
   \<and> deq NaN (dbl 1 0) = False"
proof -
  have "deq (Infinity True) dbl_max = False" "deq NaN (dbl 1 0) = False"
    by (simp_all add: dbl_max_def)
  then show ?thesis
    by (simp add: heat_serial_evolve nu_quarter tiny_dx_nu evolve.simps overflow_step tiny_dx_step)
qed

text \<open>
  C4, as the code has it.  Let every cell of \<open>u\<close> hold the same finite double \<open>c\<close>
  of absolute value below \<open>2^1023\<close> (its exponent \<open>e\<close> is below 971, so \<open>2*c\<close> does
  not overflow) and let \<open>nu = dt/(dx*dx)\<close> evaluate to a finite double.  Then for
  every \<open>Nt\<close> and \<open>Nx \<ge> 2\<close> \<open>heat_serial\<close> returns a constant field whose value
  compares equal to \<open>c\<close>, and is \<open>c\<close> itself unless \<open>c\<close> is \<open>-0\<close>.
\<close>

theorem constant_steady_state:
  fixes Nx :: nat
  assumes "2 \<le> Nx" and "is_double (Finite s m e)" and "e < 971"
    and "fdiv double_arith dt (fmul double_arith dx dx) = Finite t k f"
  shows "\<exists>c'. heat_serial double_arith g (replicate Nx (Finite s m e)) dx Nx dt Nt
                 = Inr (replicate Nx c')
              \<and> deq c' (Finite s m e)
              \<and> (Finite s m e \<noteq> minus_zero \<longrightarrow> c' = Finite s m e)"
proof -
  have "heat_serial double_arith g (replicate Nx (Finite s m e)) dx Nx dt Nt
          = Inr (evolve double_arith (Finite t k f) Nt (replicate Nx (Finite s m e)))"
    using heat_serial_evolve [OF assms(1), of "replicate Nx (Finite s m e)" double_arith g dx dt Nt]
      assms(4) by simp
  then show ?thesis
    using evolve_constant_double [OF assms(2,3), of t k f Nt Nx] by auto
qed

theorem constant_steady_state_witness:
  "(2::nat) \<le> 8
   \<and> is_double (Finite False 6755399441055744 (- 51))
   \<and> (- 51::int) < 971
   \<and> fdiv double_arith (dbl 1 (- 2)) (fmul double_arith (dbl 1 0) (dbl 1 0))
       = Finite False 4503599627370496 (- 54)
   \<and> heat_serial double_arith nan_block (replicate 8 (Finite False 6755399441055744 (- 51)))
         (dbl 1 0) 8 (dbl 1 (- 2)) 100
       = Inr (replicate 8 (Finite False 6755399441055744 (- 51)))"
proof -
  have h1: "(2::nat) \<le> 8" by simp
  have h2: "is_double (Finite False 6755399441055744 (- 51))" by simp
  have h3: "(- 51::int) < 971" by simp
  have h4: "fdiv double_arith (dbl 1 (- 2)) (fmul double_arith (dbl 1 0) (dbl 1 0))
              = Finite False 4503599627370496 (- 54)"
    by (simp add: dbl_eval)
  have nz: "Finite False 6755399441055744 (- 51) \<noteq> minus_zero"
    by (simp add: minus_zero_def)
  from constant_steady_state [OF h1 h2 h3 h4, of nan_block 100] nz
  have "heat_serial double_arith nan_block (replicate 8 (Finite False 6755399441055744 (- 51)))
          (dbl 1 0) 8 (dbl 1 (- 2)) 100
        = Inr (replicate 8 (Finite False 6755399441055744 (- 51)))"
    by auto
  with h1 h2 h3 h4 show ?thesis by blast
qed

section \<open>The claims about the parallel kernel\<close>

text \<open>
  C1.  The equivalence does not hold for every slice length.  With two ranks owning
  one cell each (\<open>P = 2\<close>, \<open>Nx = 1\<close>) and \<open>Nt = 1\<close>, \<open>heat_serial\<close> on the two
  cells \<open>[1, 2]\<close> returns \<open>[1.5, 1.5]\<close>, whereas in \<open>heat_parallel\<close> the first pass
  of the loop body reads \<^verbatim>\<open>ukt[Nx-2]\<close> and \<^verbatim>\<open>ukt[1]\<close> outside the one-cell block: both
  ranks leave the defined behaviour, and no run of the communicator, buffered or not,
  ends with all ranks returned.
\<close>

theorem serial_parallel_equivalence_counterexample:
  "heat_serial double_arith nan_block [dbl 1 0, dbl 2 0] (dbl 1 0) (2 * 1) (dbl 1 (- 2)) 1
     = Inr [dbl 3 (- 1), dbl 3 (- 1)]
   \<and> length [dbl 1 0, dbl 2 0] = 2 * 1
   \<and> map_option pcs (run double_arith False [0, 1]
        (mpi_start double_arith nan_blocks (slices 2 1 [dbl 1 0, dbl 2 0])
           (dbl 1 0) 1 (dbl 1 (- 2)) 1))
       = Some [Undefined, Undefined]
   \<and> \<not> (\<exists>buffered sched c.
          run double_arith buffered sched
            (mpi_start double_arith nan_blocks (slices 2 1 [dbl 1 0, dbl 2 0])
               (dbl 1 0) 1 (dbl 1 (- 2)) 1) = Some c
          \<and> all_returned c)"
proof -
  let ?uks = "slices 2 1 [dbl 1 0, dbl 2 0]"
  have ne: "?uks \<noteq> []"
    by (simp add: slices_def upt_rec [of _ "numeral _"])
  have len: "length [dbl 1 0, dbl 2 0] = 2 * 1" by simp
  have ok: "\<forall>a \<in> set ?uks. (1::nat) \<le> length a"
    by (rule slices_length_ok [OF len])
  have small: "(1::nat) < 2" "(0::nat) < 1" by simp_all
  have never: "\<not> (\<exists>buffered sched c.
          run double_arith buffered sched
            (mpi_start double_arith nan_blocks ?uks (dbl 1 0) 1 (dbl 1 (- 2)) 1) = Some c
          \<and> all_returned c)"
    using small_slice_never_returns [OF small ne ok] by blast
  show ?thesis
    by (intro conjI one_cell_serial len one_cell_parallel never)
qed

text \<open>
  C1, as the code has it.  A global field \<open>U\<close> of \<open>P * Nx\<close> cells is split into
  \<open>P\<close> contiguous slices of \<open>Nx\<close> cells and rank \<open>r\<close> of a communicator of \<open>P \<ge> 1\<close>
  processes calls \<open>heat_parallel\<close> on slice \<open>r\<close>, all with the same \<open>dx\<close>, \<open>dt\<close>,
  \<open>Nt\<close>; every slice has at least two cells (\<open>Nx \<ge> 2\<close>), or \<open>Nt\<close> is 0.
  Whatever the order in which the ranks move, whether or not the library buffers the
  sends, and whatever the allocated blocks held: the ranks can all return, no run gets
  stuck before they have, and once they have the arrays \<open>uk\<close> put one after the other
  in rank order are exactly what \<open>heat_serial\<close> returns on \<open>U\<close>.  The arithmetic is
  arbitrary, so the equality owes nothing to properties of the operators: each cell is
  computed by the same operations on the same values in both kernels.
\<close>

theorem serial_parallel_equivalence:
  fixes Nx :: nat
  assumes "0 < P" and "2 \<le> Nx \<or> Nt = 0" and "length U = P * Nx"
  shows "(\<exists>sched c. run A buffered sched (mpi_start A g (slices P Nx U) dx Nx dt Nt) = Some c
                    \<and> all_returned c)
       \<and> (\<forall>sched c. run A buffered sched (mpi_start A g (slices P Nx U) dx Nx dt Nt) = Some c
            \<longrightarrow> (\<exists>more c'. run A buffered more c = Some c' \<and> all_returned c'))
       \<and> (\<forall>sched c. run A buffered sched (mpi_start A g (slices P Nx U) dx Nx dt Nt) = Some c
                     \<and> all_returned c
            \<longrightarrow> heat_serial A h U dx (P * Nx) dt Nt = Inr (gather c))"
proof (cases "Nt = 0")
  case True
  let ?start = "mpi_start A g (slices P Nx U) dx Nx dt 0"
  note ok = slices_length_ok [OF assms(3)]
  have start: "zero_inv Nx (slices P Nx U) ?start"
    by (rule zero_inv_start [OF ok])
  have reach: "zero_inv Nx (slices P Nx U) c" if "run A buffered sched ?start = Some c" for sched c
    by (rule zero_inv_run [OF start ok that])
  have serial: "heat_serial A h U dx (P * Nx) dt 0 = Inr U"
    using assms(3) by (simp add: heat_serial_zero)
  have 1: "\<exists>sched c. run A buffered sched ?start = Some c \<and> all_returned c"
    by (rule zero_inv_completes [OF start ok])
  have 2: "\<exists>more c'. run A buffered more c = Some c' \<and> all_returned c'"
    if "run A buffered sched ?start = Some c" for sched c
    by (rule zero_inv_completes [OF reach [OF that] ok])
  have 3: "heat_serial A h U dx (P * Nx) dt 0 = Inr (gather c)"
    if "run A buffered sched ?start = Some c \<and> all_returned c" for sched c
    using gather_zero [OF reach [of sched c] assms(3)] that serial by simp
  from 1 2 3 show ?thesis unfolding True by blast
next
  case False
  then have Nx: "2 \<le> Nx" using assms(2) by simp
  let ?nu = "fdiv A dt (fmul A dx dx)"
  let ?start = "mpi_start A g (slices P Nx U) dx Nx dt Nt"
  have start: "run_inv A ?nu Nx Nt U ?start"
    by (rule mpi_start_inv [OF assms(3)])
  have reach: "run_inv A ?nu Nx Nt U c" if "run A buffered sched ?start = Some c" for sched c
    by (rule run_inv_run [OF start Nx that])
  have "1 * 2 \<le> P * Nx"
    using assms(1) Nx by (intro mult_le_mono) simp_all
  then have big: "2 \<le> P * Nx" by simp
  have serial: "heat_serial A h U dx (P * Nx) dt Nt = Inr (evolve A ?nu Nt U)"
    using heat_serial_evolve [OF big, of U A h dx dt Nt] assms(3) by simp
  have 1: "\<exists>sched c. run A buffered sched ?start = Some c \<and> all_returned c"
    by (rule run_completes [OF start Nx])
  have 2: "\<exists>more c'. run A buffered more c = Some c' \<and> all_returned c'"
    if "run A buffered sched ?start = Some c" for sched c
    by (rule run_completes [OF reach [OF that] Nx])
  have 3: "heat_serial A h U dx (P * Nx) dt Nt = Inr (gather c)"
    if "run A buffered sched ?start = Some c \<and> all_returned c" for sched c
    using gather_returned [of A ?nu Nx Nt U c] reach [of sched c] that serial by simp
  from 1 2 3 show ?thesis by blast
qed

lemma two_rank_run:
  "\<exists>c. run double_arith False [0, 1, 0, 1, 0, 1, 0, 1, 0, 1]
          (mpi_start double_arith (\<lambda>r i. NaN) (slices 2 2 [dbl 1 0, dbl 0 0, dbl 0 0, dbl 0 0])
             (dbl 1 0) 2 (dbl 1 (- 2)) 1) = Some c
     \<and> all_returned c \<and> gather c = [dbl 1 (- 1), dbl 1 (- 2), dbl 0 0, dbl 1 (- 2)]"
  by (simp add: rank_step_def Let_def post_sends_def recv_right_def recv_left_def wait_sends_def
    finish_def heat_parallel_enter_def mpi_start_def slices_def slice_def malloc_def
    array_copy_def interior_def isend_def dequeue_def left_proc_def right_proc_def
    all_returned_def gather_def dbl_eval upt_rec [of _ "numeral _"] upt_rec [of _ "Suc _"])

theorem serial_parallel_equivalence_witness:
  "(0::nat) < 2 \<and> ((2::nat) \<le> 2 \<or> (1::nat) = 0)
   \<and> length [dbl 1 0, dbl 0 0, dbl 0 0, dbl 0 0] = 2 * 2
   \<and> (\<exists>c. run double_arith False [0, 1, 0, 1, 0, 1, 0, 1, 0, 1]
            (mpi_start double_arith (\<lambda>r i. NaN) (slices 2 2 [dbl 1 0, dbl 0 0, dbl 0 0, dbl 0 0])
               (dbl 1 0) 2 (dbl 1 (- 2)) 1) = Some c
          \<and> all_returned c
          \<and> heat_serial double_arith (\<lambda>i. NaN) [dbl 1 0, dbl 0 0, dbl 0 0, dbl 0 0]
                (dbl 1 0) (2 * 2) (dbl 1 (- 2)) 1 = Inr (gather c)
          \<and> gather c = [dbl 1 (- 1), dbl 1 (- 2), dbl 0 0, dbl 1 (- 2)])"
proof -
  let ?U = "[dbl 1 0, dbl 0 0, dbl 0 0, dbl 0 0]"
  have h1: "(0::nat) < 2" by simp
  have h2: "(2::nat) \<le> 2 \<or> (1::nat) = 0" by simp
  have h3: "length ?U = 2 * 2" by simp
  from two_rank_run obtain c where
    c: "run double_arith False [0, 1, 0, 1, 0, 1, 0, 1, 0, 1]
          (mpi_start double_arith (\<lambda>r i. NaN) (slices 2 2 ?U) (dbl 1 0) 2 (dbl 1 (- 2)) 1) = Some c"
       "all_returned c" "gather c = [dbl 1 (- 1), dbl 1 (- 2), dbl 0 0, dbl 1 (- 2)]"
    by blast
  from serial_parallel_equivalence [OF h1 h2 h3, of double_arith False "\<lambda>r i. NaN"
      "dbl 1 0" "dbl 1 (- 2)" "\<lambda>i. NaN"] c(1,2)
  have "heat_serial double_arith (\<lambda>i. NaN) ?U (dbl 1 0) (2 * 2) (dbl 1 (- 2)) 1 = Inr (gather c)"
    by blast
  with h1 h2 h3 c show ?thesis by blast
qed

text \<open>
  C3.  With \<open>Nt = 0\<close> \<open>heat_serial\<close> returns with the array \<open>u\<close> as it was (any
  array of at least \<open>Nx\<close> cells, any \<open>Nx\<close>, \<open>dx\<close>, \<open>dt\<close>).  Likewise
  \<open>heat_parallel\<close>: when every rank is called with an array of at least \<open>Nx\<close> cells
  and \<open>Nt = 0\<close>, all ranks can return, and at every point of every run, so also
  after the return, the array \<open>uk\<close> of each rank is the one it was called with.  The
  cells are values of an arbitrary type: nothing is computed on them, they are copied.
\<close>

theorem zero_step_identity:
  fixes Nx :: nat
  assumes "Nx \<le> length u" and "\<forall>a \<in> set uks. Nx \<le> length a"
  shows "heat_serial A g u dx Nx dt 0 = Inr u
       \<and> (\<exists>sched c. run A buffered sched (mpi_start A gs uks dx Nx dt 0) = Some c
                     \<and> all_returned c)
       \<and> (\<forall>sched c. run A buffered sched (mpi_start A gs uks dx Nx dt 0) = Some c
            \<longrightarrow> map uk (procs c) = uks)"
proof -
  let ?start = "mpi_start A gs uks dx Nx dt 0"
  have start: "zero_inv Nx uks ?start" by (rule zero_inv_start [OF assms(2)])
  have 1: "heat_serial A g u dx Nx dt 0 = Inr u" by (rule heat_serial_zero [OF assms(1)])
  have 2: "\<exists>sched c. run A buffered sched ?start = Some c \<and> all_returned c"
    by (rule zero_inv_completes [OF start assms(2)])
  have 3: "map uk (procs c) = uks" if "run A buffered sched ?start = Some c" for sched c
  proof -
    have "zero_inv Nx uks c" by (rule zero_inv_run [OF start assms(2) that])
    then show ?thesis by (intro nth_equalityI) (simp_all add: zero_inv_def)
  qed
  from 1 2 3 show ?thesis by blast
qed

lemma zero_step_run:
  "\<exists>c. run double_arith False [1, 0]
          (mpi_start double_arith (\<lambda>r i. NaN) [ [dbl 1 0, dbl 1 (- 2)], [dbl 0 0, dbl 1 (- 1)] ]
             (dbl 1 0) 2 (dbl 1 (- 2)) 0) = Some c
       \<and> all_returned c"
  by (simp add: rank_step_def Let_def finish_def heat_parallel_enter_def mpi_start_def
    malloc_def array_copy_def all_returned_def upt_rec [of _ "numeral _"] upt_rec [of _ "Suc _"])

theorem zero_step_identity_witness:
  "(2::nat) \<le> length [dbl 1 0, dbl 1 (- 2)]
   \<and> (2::nat) \<le> length [dbl 0 0, dbl 1 (- 1)]
   \<and> heat_serial double_arith (\<lambda>i. NaN) [dbl 1 0, dbl 1 (- 2)] (dbl 1 0) 2 (dbl 1 (- 2)) 0
       = Inr [dbl 1 0, dbl 1 (- 2)]
   \<and> (\<exists>c. run double_arith False [1, 0]
            (mpi_start double_arith (\<lambda>r i. NaN) [ [dbl 1 0, dbl 1 (- 2)], [dbl 0 0, dbl 1 (- 1)] ]
               (dbl 1 0) 2 (dbl 1 (- 2)) 0) = Some c
          \<and> all_returned c
          \<and> map uk (procs c) = [ [dbl 1 0, dbl 1 (- 2)], [dbl 0 0, dbl 1 (- 1)] ])"
proof -
  let ?u = "[dbl 1 0, dbl 1 (- 2)]"
  let ?uks = "[ [dbl 1 0, dbl 1 (- 2)], [dbl 0 0, dbl 1 (- 1)] ]"
  have h1: "(2::nat) \<le> length ?u" by simp
  have h2: "\<forall>a \<in> set ?uks. (2::nat) \<le> length a" by simp
  note inst = zero_step_identity [OF h1 h2, of double_arith "\<lambda>i. NaN" "dbl 1 0" "dbl 1 (- 2)"
      False "\<lambda>r i. NaN"]
  from zero_step_run obtain c where
    c: "run double_arith False [1, 0]
          (mpi_start double_arith (\<lambda>r i. NaN) ?uks (dbl 1 0) 2 (dbl 1 (- 2)) 0) = Some c"
       "all_returned c"
    by blast
  from inst c(1) have "map uk (procs c) = ?uks" by blast
  moreover have "(2::nat) \<le> length [dbl 0 0, dbl 1 (- 1)]" by simp
  ultimately show ?thesis using inst h1 c by blast
qed


end
